theory Spec2Isabelle
  imports Complex_Main
begin

section \<open>Data model\<close>

text \<open>
  The simulator is Python. Its floats are modelled as reals (no rounding, no NaN), its
  unbounded ints as \<open>int\<close>, list positions and generator positions as \<open>nat\<close>.
  The outcome tags \<open>"OUT"\<close>, \<open>"WALK"\<close>, \<open>"SINGLE"\<close>, \<open>"DOUBLE"\<close>, \<open>"TRIPLE"\<close>, \<open>"HR"\<close> that
  \<open>simulate_at_bat\<close> returns are the constructors of \<open>outcome\<close>.
\<close>

datatype error = IndexError | AttributeError

datatype outcome = OUT | WALK | SINGLE | DOUBLE | TRIPLE | HR

record pitcher =
  name :: string
  team :: string
  era :: real
  whip :: real
  war :: real
  overall :: real

record batter =
  name :: string
  team :: string
  ops :: real
  war :: real
  obp :: real
  slg :: real
  overall :: real

text \<open>
  \<open>current_batter_index\<close> is the attribute that \<open>play_half_inning\<close> creates on a team
  the first time the team bats; \<open>None\<close> is a team object that does not have it yet.
\<close>

record team =
  code :: string
  batters :: "batter list"
  pitchers :: "pitcher list"
  defense :: real
  current_batter_index :: "nat option"

text \<open>
  The fields of \<open>Engine.__init__\<close>. A pitcher is \<open>None\<close> when \<open>get_starting_pitcher\<close>
  found no pitcher. \<open>rng_pos\<close> is the state of the module-level generator \<open>random\<close>:
  the number of values \<open>random.random()\<close> has handed out so far; the values themselves
  are a function \<open>g :: nat \<Rightarrow> real\<close> that the operations take as their first argument.
  The two teams are distinct objects.
\<close>

record engine =
  home_team :: team
  away_team :: team
  home_pitcher :: "pitcher option"
  away_pitcher :: "pitcher option"
  home_score :: int
  away_score :: int
  inning :: int
  home_pitcher_fatigue :: real
  away_pitcher_fatigue :: real
  rng_pos :: nat

text \<open>A reference to one of the two team objects the engine holds.\<close>

datatype team_ref = HomeTeam | AwayTeam

fun deref :: "engine \<Rightarrow> team_ref \<Rightarrow> team" where
  "deref s HomeTeam = home_team s"
| "deref s AwayTeam = away_team s"

fun set_batter_index :: "engine \<Rightarrow> team_ref \<Rightarrow> nat \<Rightarrow> engine" where
  "set_batter_index s HomeTeam i =
     s\<lparr>home_team := (home_team s)\<lparr>current_batter_index := Some i\<rparr>\<rparr>"
| "set_batter_index s AwayTeam i =
     s\<lparr>away_team := (away_team s)\<lparr>current_batter_index := Some i\<rparr>\<rparr>"

section \<open>Exceptions and list access\<close>

definition bind_result :: "error + 'a \<Rightarrow> ('a \<Rightarrow> error + 'b) \<Rightarrow> error + 'b" where
  "bind_result m f = (case m of Inl e \<Rightarrow> Inl e | Inr x \<Rightarrow> f x)"

text \<open>\<open>xs[i]\<close> and \<open>xs[i] = v\<close> for a position \<open>i \<ge> 0\<close>: out of range raises.\<close>

definition getitem :: "'a list \<Rightarrow> nat \<Rightarrow> error + 'a" where
  "getitem xs i = (if i < length xs then Inr (xs ! i) else Inl IndexError)"

definition setitem :: "'a list \<Rightarrow> nat \<Rightarrow> 'a \<Rightarrow> error + 'a list" where
  "setitem xs i v = (if i < length xs then Inr (xs[i := v]) else Inl IndexError)"

section \<open>Base state machine: \<open>Engine.advance_runners\<close>\<close>

text \<open>
  The walk branch (\<open>is_walk\<close>) of \<open>advance_runners\<close>: the updated list and \<open>runs_scored\<close>.
\<close>

definition advance_walk :: "int list \<Rightarrow> error + (int list \<times> int)" where
  "advance_walk bases =
     bind_result (getitem bases 0) (\<lambda>b0.
     bind_result
       (if b0 = 1 then
          bind_result (getitem bases 1) (\<lambda>b1.
          bind_result
            (if b1 = 1 then
               bind_result (getitem bases 2) (\<lambda>b2.
               bind_result (setitem bases 2 1) (\<lambda>bs.
               Inr (bs, if b2 = 1 then 1 else 0)))
             else Inr (bases, 0)) (\<lambda>(bs, runs).
          bind_result (setitem bs 1 1) (\<lambda>bs'. Inr (bs', runs))))
        else Inr (bases, 0)) (\<lambda>(bs, runs).
     bind_result (setitem bs 0 1) (\<lambda>bs'. Inr (bs', runs))))"

text \<open>
  The hit branch: third base, then second, then first, then the batter on base \<open>hits\<close>.
\<close>

definition advance_hit :: "int list \<Rightarrow> int \<Rightarrow> error + (int list \<times> int)" where
  "advance_hit bases hits =
     bind_result (getitem bases 2) (\<lambda>b2.
     bind_result
       (if b2 = 1 then bind_result (setitem bases 2 0) (\<lambda>bs. Inr (bs, 1))
        else Inr (bases, 0)) (\<lambda>(bs, runs).
     bind_result (getitem bs 1) (\<lambda>b1.
     bind_result
       (if b1 = 1 then
          (if hits \<ge> 2 then bind_result (setitem bs 1 0) (\<lambda>bs'. Inr (bs', runs + 1))
           else bind_result (setitem bs 2 1) (\<lambda>bs'.
                bind_result (setitem bs' 1 0) (\<lambda>bs''. Inr (bs'', runs))))
        else Inr (bs, runs)) (\<lambda>(bs, runs).
     bind_result (getitem bs 0) (\<lambda>b0.
     bind_result
       (if b0 = 1 then
          (if hits = 3 then bind_result (setitem bs 0 0) (\<lambda>bs'. Inr (bs', runs + 1))
           else if hits = 2 then
                bind_result (setitem bs 2 1) (\<lambda>bs'.
                bind_result (setitem bs' 0 0) (\<lambda>bs''. Inr (bs'', runs)))
           else bind_result (setitem bs 1 1) (\<lambda>bs'.
                bind_result (setitem bs' 0 0) (\<lambda>bs''. Inr (bs'', runs))))
        else Inr (bs, runs)) (\<lambda>(bs, runs).
     if hits = 1 then bind_result (setitem bs 0 1) (\<lambda>bs'. Inr (bs', runs))
     else if hits = 2 then bind_result (setitem bs 1 1) (\<lambda>bs'. Inr (bs', runs))
     else if hits = 3 then bind_result (setitem bs 2 1) (\<lambda>bs'. Inr (bs', runs))
     else Inr (bs, runs)))))))"

definition add_runs :: "engine \<Rightarrow> bool \<Rightarrow> int \<Rightarrow> engine" where
  "add_runs s is_home runs =
     (if is_home then s\<lparr>home_score := home_score s + runs\<rparr>
      else s\<lparr>away_score := away_score s + runs\<rparr>)"

text \<open>
  \<open>advance_runners\<close> changes the list in place and the score attributes; the model
  returns the engine and the list after the call.
\<close>

definition advance_runners ::
  "engine \<Rightarrow> int list \<Rightarrow> int \<Rightarrow> bool \<Rightarrow> bool \<Rightarrow> error + (engine \<times> int list)" where
  "advance_runners s bases hits is_walk is_home =
     bind_result (if is_walk then advance_walk bases else advance_hit bases hits)
       (\<lambda>(bs, runs_scored).
          Inr (if runs_scored > 0 then add_runs s is_home runs_scored else s, bs))"

text \<open>
  The \<open>if\<close>/\<open>elif\<close> chain of \<open>play_half_inning\<close> on the result of an at-bat: the engine,
  \<open>outs\<close> and \<open>bases\<close> after it.
\<close>

fun apply_result ::
  "engine \<Rightarrow> bool \<Rightarrow> outcome \<Rightarrow> int \<Rightarrow> int list \<Rightarrow> error + (engine \<times> int \<times> int list)" where
  "apply_result s is_home OUT outs bases = Inr (s, outs + 1, bases)"
| "apply_result s is_home WALK outs bases =
     bind_result (advance_runners s bases 1 True is_home) (\<lambda>(s', bs). Inr (s', outs, bs))"
| "apply_result s is_home SINGLE outs bases =
     bind_result (advance_runners s bases 1 False is_home) (\<lambda>(s', bs). Inr (s', outs, bs))"
| "apply_result s is_home DOUBLE outs bases =
     bind_result (advance_runners s bases 2 False is_home) (\<lambda>(s', bs). Inr (s', outs, bs))"
| "apply_result s is_home TRIPLE outs bases =
     bind_result (advance_runners s bases 3 False is_home) (\<lambda>(s', bs). Inr (s', outs, bs))"
| "apply_result s is_home HR outs bases =
     Inr (add_runs s is_home (sum_list bases + 1), outs, [0, 0, 0])"

section \<open>At-bat resolver: \<open>Engine.simulate_at_bat\<close>\<close>

definition AVG_WHIP :: real where "AVG_WHIP = 1.30"
definition WHIP_COEFF :: real where "WHIP_COEFF = 0.40"
definition DEFENSE_DIVISOR :: real where "DEFENSE_DIVISOR = 300"
definition WALK_RATE :: real where "WALK_RATE = 0.225"
definition SINGLE_RATE :: real where "SINGLE_RATE = 0.755"
definition XBH_RATE :: real where "XBH_RATE = 0.92"
definition TRIPLE_CHANCE :: real where "TRIPLE_CHANCE = 0.15"
definition ISO_MULTIPLIER :: real where "ISO_MULTIPLIER = 2.5"

definition adjusted_obp :: "batter \<Rightarrow> pitcher \<Rightarrow> real \<Rightarrow> real" where
  "adjusted_obp b pit fatigue =
     (let current_whip = whip pit + fatigue;
          whip_diff = current_whip - AVG_WHIP;
          adjusted = obp b + (whip_diff * WHIP_COEFF)
      in max 0.100 (min 0.700 adjusted))"

definition defense_save_chance :: "real \<Rightarrow> real" where
  "defense_save_chance defense_rating = max 0 (defense_rating / DEFENSE_DIVISOR)"

definition power_threshold :: "batter \<Rightarrow> real" where
  "power_threshold b = (let iso = ops b - obp b in 1.0 - (iso * ISO_MULTIPLIER))"

text \<open>
  \<open>simulate_at_bat g p batter pitcher defense_rating fatigue\<close>: the generator has handed
  out \<open>p\<close> values before the call; the result is the outcome and the number it has handed
  out after. Each \<open>random.random()\<close> of the source reads the next value. The first
  statement reads \<open>pitcher.whip\<close>, which raises on \<open>None\<close>.
\<close>

definition simulate_at_bat ::
  "(nat \<Rightarrow> real) \<Rightarrow> nat \<Rightarrow> batter \<Rightarrow> pitcher option \<Rightarrow> real \<Rightarrow> real \<Rightarrow> error + (outcome \<times> nat)" where
  "simulate_at_bat g p b pitcher defense_rating fatigue =
     (case pitcher of
        None \<Rightarrow> Inl AttributeError
      | Some pit \<Rightarrow>
          if g p > adjusted_obp b pit fatigue then Inr (OUT, p + 1)
          else if g (p + 1) < defense_save_chance defense_rating then Inr (OUT, p + 2)
          else
            (let type_roll = g (p + 2) in
             if type_roll < WALK_RATE then Inr (WALK, p + 3)
             else if type_roll < SINGLE_RATE then Inr (SINGLE, p + 3)
             else if type_roll < XBH_RATE then
               Inr (if g (p + 3) < TRIPLE_CHANCE then TRIPLE else DOUBLE, p + 4)
             else if g (p + 3) > power_threshold b then Inr (HR, p + 4)
             else Inr (DOUBLE, p + 4)))"

section \<open>Roster selection: \<open>Team.get_starting_lineup\<close>, \<open>Team.get_starting_pitcher\<close>\<close>

text \<open>
  \<open>sorted(xs, key=lambda p: p.overall, reverse=True)\<close> is a stable sort by descending
  rating: \<open>sort_key\<close> on the negated rating.
\<close>

definition get_starting_lineup :: "team \<Rightarrow> batter list" where
  "get_starting_lineup t =
     (if length (batters t) < 9 then batters t
      else take 9 (sort_key (\<lambda>p. - batter.overall p) (batters t)))"

text \<open>
  \<open>random.choice(seq)\<close> is \<open>seq[randbelow(len(seq))]\<close> and raises on an empty sequence;
  \<open>randbelow\<close> is the generator's integer draw, below its argument.
\<close>

definition random_choice :: "(nat \<Rightarrow> nat) \<Rightarrow> 'a list \<Rightarrow> error + 'a" where
  "random_choice randbelow xs =
     (if xs = [] then Inl IndexError else getitem xs (randbelow (length xs)))"

definition top3_pitchers :: "team \<Rightarrow> pitcher list" where
  "top3_pitchers t = take 3 (sort_key (\<lambda>p. - pitcher.overall p) (pitchers t))"

definition get_starting_pitcher :: "(nat \<Rightarrow> nat) \<Rightarrow> team \<Rightarrow> error + pitcher option" where
  "get_starting_pitcher randbelow t =
     (if pitchers t = [] then Inr None
      else bind_result (random_choice randbelow (top3_pitchers t)) (\<lambda>p. Inr (Some p)))"

section \<open>Half-inning driver: \<open>Engine.play_half_inning\<close>\<close>

text \<open>
  One pass through the body of the \<open>while\<close> loop after the walk-off check: the batter
  is read from the lineup, the at-bat is resolved, the result applied, the index advanced.
\<close>

definition at_bat_step ::
  "(nat \<Rightarrow> real) \<Rightarrow> team_ref \<Rightarrow> team_ref \<Rightarrow> pitcher option \<Rightarrow> real \<Rightarrow> bool \<Rightarrow> batter list \<Rightarrow>
   engine \<Rightarrow> int \<Rightarrow> int list \<Rightarrow> error + (engine \<times> int \<times> int list)" where
  "at_bat_step g batting_team defending_team pitcher fatigue is_home lineup s outs bases =
     (case current_batter_index (deref s batting_team) of
        None \<Rightarrow> Inl AttributeError
      | Some i \<Rightarrow>
          bind_result (getitem lineup i) (\<lambda>b.
          bind_result
            (simulate_at_bat g (rng_pos s) b pitcher (defense (deref s defending_team)) fatigue)
            (\<lambda>(result, p').
          bind_result (apply_result (s\<lparr>rng_pos := p'\<rparr>) is_home result outs bases)
            (\<lambda>(s', outs', bases').
          Inr (set_batter_index s' batting_team ((i + 1) mod 9), outs', bases')))))"

text \<open>
  The \<open>while outs < 3\<close> loop. It need not end (a generator that never yields an out in a
  top half); \<open>None\<close> is the run that does not return.
\<close>

partial_function (option) half_inning_loop ::
  "(nat \<Rightarrow> real) \<Rightarrow> team_ref \<Rightarrow> team_ref \<Rightarrow> pitcher option \<Rightarrow> real \<Rightarrow> bool \<Rightarrow> batter list \<Rightarrow>
   engine \<Rightarrow> int \<Rightarrow> int list \<Rightarrow> (error + engine) option" where
  "half_inning_loop g batting_team defending_team pitcher fatigue is_home lineup s outs bases =
     (if outs < 3 then
        (if inning s \<ge> 9 \<and> is_home \<and> home_score s > away_score s then Some (Inr s)
         else
           (case at_bat_step g batting_team defending_team pitcher fatigue is_home lineup
                   s outs bases of
              Inl e \<Rightarrow> Some (Inl e)
            | Inr (s', outs', bases') \<Rightarrow>
                half_inning_loop g batting_team defending_team pitcher fatigue is_home lineup
                  s' outs' bases'))
      else Some (Inr s))"

definition play_half_inning ::
  "(nat \<Rightarrow> real) \<Rightarrow> engine \<Rightarrow> team_ref \<Rightarrow> team_ref \<Rightarrow> pitcher option \<Rightarrow> real \<Rightarrow> bool \<Rightarrow>
   (error + engine) option" where
  "play_half_inning g s batting_team defending_team pitcher fatigue is_home =
     (let lineup = get_starting_lineup (deref s batting_team);
          s1 = (if current_batter_index (deref s batting_team) = None
                then set_batter_index s batting_team 0 else s)
      in half_inning_loop g batting_team defending_team pitcher fatigue is_home lineup
           s1 0 [0, 0, 0])"

section \<open>Game driver: \<open>Engine.play_inning\<close>, \<open>Engine.play\<close>\<close>

definition play_inning :: "(nat \<Rightarrow> real) \<Rightarrow> engine \<Rightarrow> (error + engine) option" where
  "play_inning g s =
     (case play_half_inning g s AwayTeam HomeTeam (home_pitcher s)
             (home_pitcher_fatigue s) False of
        None \<Rightarrow> None
      | Some (Inl e) \<Rightarrow> Some (Inl e)
      | Some (Inr s1) \<Rightarrow>
          if inning s1 \<ge> 9 \<and> home_score s1 > away_score s1 then Some (Inr s1)
          else play_half_inning g s1 HomeTeam AwayTeam (away_pitcher s1)
                 (away_pitcher_fatigue s1) True)"

text \<open>The two fatigue increments and the inning increment that end a pass of the game loop.\<close>

definition end_inning :: "engine \<Rightarrow> engine" where
  "end_inning s =
     s\<lparr>home_pitcher_fatigue := home_pitcher_fatigue s + 0.05,
       away_pitcher_fatigue := away_pitcher_fatigue s + 0.05,
       inning := inning s + 1\<rparr>"

partial_function (option) play_loop :: "(nat \<Rightarrow> real) \<Rightarrow> engine \<Rightarrow> (error + engine) option" where
  "play_loop g s =
     (if inning s \<le> 9 \<or> away_score s = home_score s then
        (if inning s > 15 then Some (Inr s)
         else
           (case play_inning g s of
              None \<Rightarrow> None
            | Some (Inl e) \<Rightarrow> Some (Inl e)
            | Some (Inr s1) \<Rightarrow> play_loop g (end_inning s1)))
      else Some (Inr s))"

text \<open>
  \<open>play\<close> prints the pitching matchup from \<open>self.away_pitcher.name\<close> and
  \<open>self.home_pitcher.name\<close> before the loop: either raises on \<open>None\<close>.
\<close>

definition play :: "(nat \<Rightarrow> real) \<Rightarrow> engine \<Rightarrow> (error + engine) option" where
  "play g s =
     (case away_pitcher s of
        None \<Rightarrow> Some (Inl AttributeError)
      | Some ap \<Rightarrow>
          (case home_pitcher s of
             None \<Rightarrow> Some (Inl AttributeError)
           | Some hp \<Rightarrow> play_loop g s))"

definition Engine_init ::
  "team \<Rightarrow> team \<Rightarrow> pitcher option \<Rightarrow> pitcher option \<Rightarrow> nat \<Rightarrow> engine" where
  "Engine_init home away hp ap pos =
     \<lparr>home_team = home, away_team = away, home_pitcher = hp, away_pitcher = ap,
      home_score = 0, away_score = 0, inning = 1,
      home_pitcher_fatigue = 0.0, away_pitcher_fatigue = 0.0, rng_pos = pos\<rparr>"

text \<open>
  Steps 6 and 8 of \<open>main\<close> in \<open>project.py\<close>: the two pitchers are selected, the engine is
  built from them and \<open>play\<close> is called. Nothing between the two tests a pitcher.
\<close>

definition main_simulation ::
  "(nat \<Rightarrow> real) \<Rightarrow> (nat \<Rightarrow> nat) \<Rightarrow> (nat \<Rightarrow> nat) \<Rightarrow> team \<Rightarrow> team \<Rightarrow> (error + engine) option" where
  "main_simulation g rb_away rb_home away home =
     (case get_starting_pitcher rb_away away of
        Inl e \<Rightarrow> Some (Inl e)
      | Inr ap \<Rightarrow>
          (case get_starting_pitcher rb_home home of
             Inl e \<Rightarrow> Some (Inl e)
           | Inr hp \<Rightarrow> play g (Engine_init home away hp ap 0)))"

section \<open>The transitions of the specification\<close>

text \<open>
  A base occupancy is three binary slots (first, second, third); \<open>bases_of\<close> is the list
  \<open>[1st, 2nd, 3rd]\<close> the engine keeps for it, \<open>1\<close> for an occupied base.
\<close>

definition bases_of :: "bool \<times> bool \<times> bool \<Rightarrow> int list" where
  "bases_of = (\<lambda>(first, second, third). [of_bool first, of_bool second, of_bool third])"

text \<open>
  A hit worth \<open>N\<close> bases, in the specification's words: the runner on third scores; the
  runner on second scores if \<open>N \<ge> 2\<close> and otherwise goes to third; the runner on first
  scores if \<open>N = 3\<close>, goes to third if \<open>N = 2\<close> and to second if \<open>N = 1\<close>; the batter
  takes base \<open>N\<close>. The result is the runs and the new occupancy.
\<close>

definition spec_hit :: "nat \<Rightarrow> bool \<times> bool \<times> bool \<Rightarrow> int \<times> (bool \<times> bool \<times> bool)" where
  "spec_hit N = (\<lambda>(first, second, third).
     (of_bool third + of_bool (second \<and> N \<ge> 2) + of_bool (first \<and> N = 3),
      (N = 1,
       N = 2 \<or> (first \<and> N = 1),
       N = 3 \<or> (second \<and> N < 2) \<or> (first \<and> N = 2))))"

text \<open>A home run: every runner and the batter score, the bases are empty.\<close>

definition spec_home_run :: "bool \<times> bool \<times> bool \<Rightarrow> int \<times> (bool \<times> bool \<times> bool)" where
  "spec_home_run = (\<lambda>(first, second, third).
     (of_bool first + of_bool second + of_bool third + 1, (False, False, False)))"

text \<open>
  A walk: the batter takes first; second is taken from first if first was occupied;
  third is taken from second if first and second were occupied; a run scores if the
  bases were loaded; a slot that is not forced keeps its runner.
\<close>

definition spec_walk :: "bool \<times> bool \<times> bool \<Rightarrow> int \<times> (bool \<times> bool \<times> bool)" where
  "spec_walk = (\<lambda>(first, second, third).
     (of_bool (first \<and> second \<and> third),
      (True, second \<or> first, third \<or> (first \<and> second))))"

text \<open>The runs a play adds to the two scores, read off the engine before and after.\<close>

definition runs_on_play :: "engine \<Rightarrow> engine \<Rightarrow> int" where
  "runs_on_play s s' =
     (home_score s' - home_score s) + (away_score s' - away_score s)"

text \<open>
  The at-bat pipeline, in the specification's words. \<open>r1\<close>, \<open>r2\<close>, \<open>r3\<close> are the contact,
  defense and hit-type draws; \<open>r4\<close> is the draw that separates a triple from a double
  and \<open>r5\<close> the draw of the power check.
\<close>

definition clamp :: "real \<Rightarrow> real \<Rightarrow> real \<Rightarrow> real" where
  "clamp x lo hi = (if x < lo then lo else if hi < x then hi else x)"

definition spec_adjusted_obp :: "real \<Rightarrow> real \<Rightarrow> real \<Rightarrow> real" where
  "spec_adjusted_obp obp_b whip_p fatigue =
     clamp (obp_b + (whip_p + fatigue - 1.30) * 0.40) 0.100 0.700"

definition spec_at_bat ::
  "real \<Rightarrow> real \<Rightarrow> real \<Rightarrow> real \<Rightarrow> real \<Rightarrow> real \<Rightarrow> real \<Rightarrow> real \<Rightarrow> real \<Rightarrow> real \<Rightarrow> outcome" where
  "spec_at_bat obp_b ops_b whip_p defense_rating fatigue r1 r2 r3 r4 r5 =
     (if r1 > spec_adjusted_obp obp_b whip_p fatigue then OUT
      else if r2 < max 0 (defense_rating / 300) then OUT
      else if r3 < 0.225 then WALK
      else if r3 < 0.755 then SINGLE
      else if r3 < 0.92 then (if r4 < 0.15 then TRIPLE else DOUBLE)
      else if r5 > 1.0 - (ops_b - obp_b) * 2.5 then HR
      else DOUBLE)"

text \<open>
  The number of draws the pipeline makes: one when the contact check fails, two when the
  defense saves, three for a walk or a single, four otherwise.
\<close>

definition spec_draws :: "real \<Rightarrow> real \<Rightarrow> real \<Rightarrow> real \<Rightarrow> real \<Rightarrow> real \<Rightarrow> real \<Rightarrow> nat" where
  "spec_draws obp_b whip_p defense_rating fatigue r1 r2 r3 =
     (if r1 > spec_adjusted_obp obp_b whip_p fatigue then 1
      else if r2 < max 0 (defense_rating / 300) then 2
      else if r3 < 0.755 then 3
      else 4)"

section \<open>Example players\<close>

definition example_batter :: batter where
  "example_batter =
     \<lparr>batter.name = ''Batter'', team = ''NYY'', ops = 0.800, war = 2.0,
      obp = 0.350, slg = 0.450, overall = 76\<rparr>"

definition example_pitcher :: pitcher where
  "example_pitcher =
     \<lparr>pitcher.name = ''Pitcher'', team = ''BOS'', era = 3.50, whip = 1.20,
      war = 3.0, overall = 81\<rparr>"

section \<open>Example teams\<close>

definition rated_pitcher :: "real \<Rightarrow> pitcher" where
  "rated_pitcher r = example_pitcher\<lparr>pitcher.overall := r\<rparr>"

definition example_team :: team where
  "example_team =
     \<lparr>code = ''NYY'', batters = replicate 9 example_batter,
      pitchers = [rated_pitcher 70, rated_pitcher 90, rated_pitcher 80, rated_pitcher 85],
      defense = 12, current_batter_index = None\<rparr>"

definition two_pitcher_team :: team where
  "two_pitcher_team =
     example_team\<lparr>code := ''SEA'', pitchers := [rated_pitcher 70, rated_pitcher 90]\<rparr>"

definition no_pitcher_team :: team where
  "no_pitcher_team = example_team\<lparr>code := ''BOS'', pitchers := []\<rparr>"

section \<open>What batting leaves unchanged\<close>

definition same_frame :: "engine \<Rightarrow> engine \<Rightarrow> bool" where
  "same_frame s s' =
     (inning s' = inning s \<and> home_pitcher_fatigue s' = home_pitcher_fatigue s
       \<and> away_pitcher_fatigue s' = away_pitcher_fatigue s
       \<and> home_pitcher s' = home_pitcher s \<and> away_pitcher s' = away_pitcher s)"

text \<open>
  An engine whose two teams field nine batters, whose pitchers exist and whose batter
  indices, where a team has one, are below 9. No lineup access of such an engine is out
  of range.
\<close>

definition ready :: "engine \<Rightarrow> bool" where
  "ready s =
     (9 \<le> length (batters (home_team s)) \<and> 9 \<le> length (batters (away_team s))
      \<and> home_pitcher s \<noteq> None \<and> away_pitcher s \<noteq> None
      \<and> (case current_batter_index (home_team s) of None \<Rightarrow> True | Some i \<Rightarrow> i < 9)
      \<and> (case current_batter_index (away_team s) of None \<Rightarrow> True | Some i \<Rightarrow> i < 9))"

text \<open>
  The states at the head of the \<open>while\<close> loop of \<open>play\<close> in the run from \<open>s0\<close>: \<open>s0\<close>
  itself, and after a loop head where the loop goes on and \<open>play_inning\<close> returns, the
  state that the two fatigue increments and the inning increment leave.
\<close>

inductive loop_head :: "(nat \<Rightarrow> real) \<Rightarrow> engine \<Rightarrow> engine \<Rightarrow> bool"
  for g :: "nat \<Rightarrow> real" and s0 :: engine where
  loop_head_start: "loop_head g s0 s0"
| loop_head_next:
    "loop_head g s0 s \<Longrightarrow> inning s \<le> 9 \<or> away_score s = home_score s \<Longrightarrow>
     \<not> inning s > 15 \<Longrightarrow> play_inning g s = Some (Inr s1) \<Longrightarrow>
     loop_head g s0 (end_inning s1)"

text \<open>
  A generator whose every value exceeds the largest adjusted OBP, so that every at-bat is
  an out; an opening state of two teams of nine; the same game in the ninth inning with
  the home team ahead, and tied; a team of eight batters.
\<close>

definition all_outs :: "nat \<Rightarrow> real" where
  "all_outs = (\<lambda>n. 0.9)"

definition example_game :: engine where
  "example_game =
     Engine_init example_team two_pitcher_team (Some example_pitcher) (Some example_pitcher) 0"

definition ninth_home_leads :: engine where
  "ninth_home_leads = example_game\<lparr>inning := 9, home_score := 1\<rparr>"

definition ninth_tied :: engine where
  "ninth_tied = example_game\<lparr>inning := 9\<rparr>"

definition eight_batter_team :: team where
  "eight_batter_team = example_team\<lparr>code := ''MIA'', batters := replicate 8 example_batter\<rparr>"

text \<open>
  The heads of the \<open>while\<close> loop of one call of \<open>play_half_inning\<close>: the state with the
  batter index created where the team had none, no outs and empty bases; and after a
  head with fewer than three outs and no walk-off, where the body of the loop returns,
  the state, outs and bases it leaves.
\<close>

definition half_inning_start :: "engine \<Rightarrow> team_ref \<Rightarrow> engine" where
  "half_inning_start s batting_team =
     (if current_batter_index (deref s batting_team) = None
      then set_batter_index s batting_team 0 else s)"

inductive half_inning_head ::
  "(nat \<Rightarrow> real) \<Rightarrow> engine \<Rightarrow> team_ref \<Rightarrow> team_ref \<Rightarrow> pitcher option \<Rightarrow> real \<Rightarrow> bool \<Rightarrow>
   engine \<Rightarrow> int \<Rightarrow> int list \<Rightarrow> bool"
  for g :: "nat \<Rightarrow> real" and s :: engine and batting_team :: team_ref
    and defending_team :: team_ref and pitcher :: "pitcher option" and fatigue :: real
    and is_home :: bool where
  half_inning_head_start:
    "half_inning_head g s batting_team defending_team pitcher fatigue is_home
       (half_inning_start s batting_team) 0 [0, 0, 0]"
| half_inning_head_next:
    "half_inning_head g s batting_team defending_team pitcher fatigue is_home t outs bases \<Longrightarrow>
     outs < 3 \<Longrightarrow>
     \<not> (inning t \<ge> 9 \<and> is_home \<and> home_score t > away_score t) \<Longrightarrow>
     at_bat_step g batting_team defending_team pitcher fatigue is_home
       (get_starting_lineup (deref s batting_team)) t outs bases = Inr (t', outs', bases') \<Longrightarrow>
     half_inning_head g s batting_team defending_team pitcher fatigue is_home t' outs' bases'"

section \<open>Base state machine: verification\<close>

lemmas base_machine_defs =
  bases_of_def advance_runners_def advance_hit_def advance_walk_def
  bind_result_def getitem_def setitem_def add_runs_def

lemma binary_bases_of:
  assumes "length bs = 3" and "set bs \<subseteq> {0, 1}"
  shows "\<exists>b. bs = bases_of b"
proof -
  from assms(1) obtain x y z where bs: "bs = [x, y, z]"
    by (cases bs; simp; rename_tac a as, case_tac as; simp;
        rename_tac b bs', case_tac bs'; simp)
  with assms(2) have "x = of_bool (x = 1)" "y = of_bool (y = 1)" "z = of_bool (z = 1)"
    by auto
  with bs have "bs = bases_of (x = 1, y = 1, z = 1)"
    by (simp add: bases_of_def)
  then show ?thesis ..
qed

lemma single_transition:
  "apply_result s h SINGLE outs (bases_of (f, sd, t)) =
     Inr (add_runs s h (fst (spec_hit 1 (f, sd, t))), outs,
          bases_of (snd (spec_hit 1 (f, sd, t))))"
  by (cases f; cases sd; cases t; simp add: base_machine_defs spec_hit_def)

lemma double_transition:
  "apply_result s h DOUBLE outs (bases_of (f, sd, t)) =
     Inr (add_runs s h (fst (spec_hit 2 (f, sd, t))), outs,
          bases_of (snd (spec_hit 2 (f, sd, t))))"
  by (cases f; cases sd; cases t; simp add: base_machine_defs spec_hit_def)

lemma triple_transition:
  "apply_result s h TRIPLE outs (bases_of (f, sd, t)) =
     Inr (add_runs s h (fst (spec_hit 3 (f, sd, t))), outs,
          bases_of (snd (spec_hit 3 (f, sd, t))))"
  by (cases f; cases sd; cases t; simp add: base_machine_defs spec_hit_def)

lemma home_run_transition:
  "apply_result s h HR outs (bases_of (f, sd, t)) =
     Inr (add_runs s h (fst (spec_home_run (f, sd, t))), outs,
          bases_of (snd (spec_home_run (f, sd, t))))"
  by (cases f; cases sd; cases t; simp add: base_machine_defs spec_home_run_def)

lemma walk_transition:
  "apply_result s h WALK outs (bases_of (f, sd, t)) =
     Inr (add_runs s h (fst (spec_walk (f, sd, t))), outs,
          bases_of (snd (spec_walk (f, sd, t))))"
  by (cases f; cases sd; cases t; simp add: base_machine_defs spec_walk_def)

text \<open>
  C1. For every occupancy \<open>b\<close> of the three bases, whichever side bats: a single, a
  double and a triple give the runs and the occupancy of the specification's hit of 1, 2
  and 3 bases, and a home run scores every runner and the batter and empties the bases.
  With only first occupied, a double leaves \<open>[0, 1, 1]\<close> and scores nothing.
\<close>

theorem hit_and_home_run_transitions:
  "apply_result s h SINGLE outs (bases_of b) =
     Inr (add_runs s h (fst (spec_hit 1 b)), outs, bases_of (snd (spec_hit 1 b)))
   \<and> apply_result s h DOUBLE outs (bases_of b) =
     Inr (add_runs s h (fst (spec_hit 2 b)), outs, bases_of (snd (spec_hit 2 b)))
   \<and> apply_result s h TRIPLE outs (bases_of b) =
     Inr (add_runs s h (fst (spec_hit 3 b)), outs, bases_of (snd (spec_hit 3 b)))
   \<and> apply_result s h HR outs (bases_of b) =
     Inr (add_runs s h (sum_list (bases_of b) + 1), outs, [0, 0, 0])
   \<and> apply_result s h DOUBLE outs [1, 0, 0] = Inr (s, outs, [0, 1, 1])"
proof -
  obtain f sd t where b: "b = (f, sd, t)"
    by (cases b) auto
  have "apply_result s h HR outs (bases_of b) =
          Inr (add_runs s h (sum_list (bases_of b) + 1), outs, [0, 0, 0])"
    by simp
  moreover have "apply_result s h DOUBLE outs [1, 0, 0] = Inr (s, outs, [0, 1, 1])"
    by (simp add: base_machine_defs)
  ultimately show ?thesis
    unfolding b
    using single_transition [of s h outs f sd t] double_transition [of s h outs f sd t]
      triple_transition [of s h outs f sd t]
    by simp
qed

text \<open>
  C2. For every occupancy \<open>b\<close>, a walk gives the forced advancement of the
  specification: the batter on first, second taken only from an occupied first, third
  only from first and second both occupied, one run only from loaded bases, every other
  slot as it was. \<open>[1, 0, 0]\<close> becomes \<open>[1, 1, 0]\<close> with no run, and \<open>[1, 1, 1]\<close> stays
  \<open>[1, 1, 1]\<close> with one run added to the batting side.
\<close>

theorem walk_forced_advancement:
  "apply_result s h WALK outs (bases_of b) =
     Inr (add_runs s h (fst (spec_walk b)), outs, bases_of (snd (spec_walk b)))
   \<and> apply_result s h WALK outs [1, 0, 0] = Inr (s, outs, [1, 1, 0])
   \<and> apply_result s h WALK outs [1, 1, 1] = Inr (add_runs s h 1, outs, [1, 1, 1])"
proof -
  obtain f sd t where b: "b = (f, sd, t)"
    by (cases b) auto
  have "apply_result s h WALK outs [1, 0, 0] = Inr (s, outs, [1, 1, 0])"
    by (simp add: base_machine_defs)
  moreover have "apply_result s h WALK outs [1, 1, 1] = Inr (add_runs s h 1, outs, [1, 1, 1])"
    by (simp add: base_machine_defs)
  ultimately show ?thesis
    unfolding b using walk_transition [of s h outs f sd t] by simp
qed

lemma runs_on_play_add_runs: "runs_on_play s (add_runs s h runs) = runs"
  by (simp add: runs_on_play_def add_runs_def)

lemma occupied_range: "sum_list (bases_of b) \<in> {0, 1, 2, 3}"
proof -
  obtain f sd t where "b = (f, sd, t)"
    by (cases b) auto
  then show ?thesis
    by (cases f; cases sd; cases t; simp add: bases_of_def)
qed

lemma play_boundsI:
  assumes "apply_result s h r outs bs = Inr (add_runs s h runs, outs', bases_of b')"
    and "sum_list (bases_of b') \<le> sum_list bs + 1"
    and "runs + sum_list (bases_of b') \<le> sum_list bs + 1"
  shows "\<exists>s' outs' b'.
      apply_result s h r outs bs = Inr (s', outs', bases_of b')
      \<and> sum_list (bases_of b') \<in> {0, 1, 2, 3}
      \<and> sum_list (bases_of b') \<le> sum_list bs + 1
      \<and> runs_on_play s s' + sum_list (bases_of b') \<le> sum_list bs + 1"
  using assms occupied_range [of b'] runs_on_play_add_runs [of s h runs]
  by (intro exI [of _ "add_runs s h runs"] exI [of _ outs'] exI [of _ b']) simp

lemma add_runs_zero: "add_runs s h 0 = s"
  by (simp add: add_runs_def)

lemma play_bounds:
  "\<exists>s' outs' b'.
      apply_result s h r outs (bases_of (f, sd, t)) = Inr (s', outs', bases_of b')
      \<and> sum_list (bases_of b') \<in> {0, 1, 2, 3}
      \<and> sum_list (bases_of b') \<le> sum_list (bases_of (f, sd, t)) + 1
      \<and> runs_on_play s s' + sum_list (bases_of b') \<le> sum_list (bases_of (f, sd, t)) + 1"
proof (cases r)
  case OUT
  have "apply_result s h OUT outs (bases_of (f, sd, t)) =
          Inr (add_runs s h 0, outs + 1, bases_of (f, sd, t))"
    by (simp add: add_runs_zero)
  then show ?thesis unfolding OUT
    by (rule play_boundsI) simp_all
next
  case WALK
  show ?thesis unfolding WALK
    by (rule play_boundsI [OF walk_transition])
       (cases f; cases sd; cases t; simp add: bases_of_def spec_walk_def)+
next
  case SINGLE
  show ?thesis unfolding SINGLE
    by (rule play_boundsI [OF single_transition])
       (cases f; cases sd; cases t; simp add: bases_of_def spec_hit_def)+
next
  case DOUBLE
  show ?thesis unfolding DOUBLE
    by (rule play_boundsI [OF double_transition])
       (cases f; cases sd; cases t; simp add: bases_of_def spec_hit_def)+
next
  case TRIPLE
  show ?thesis unfolding TRIPLE
    by (rule play_boundsI [OF triple_transition])
       (cases f; cases sd; cases t; simp add: bases_of_def spec_hit_def)+
next
  case HR
  show ?thesis unfolding HR
    by (rule play_boundsI [OF home_run_transition])
       (cases f; cases sd; cases t; simp add: bases_of_def spec_home_run_def)+
qed

text \<open>
  C4. From every occupancy \<open>b\<close> and for every outcome \<open>r\<close> of an at-bat, the play
  returns a list of three binary slots again; its occupied count is one of 0, 1, 2, 3 and
  at most the count before plus one; and the runs the play adds to the score plus the
  runners left on base are at most the runners before plus one, the batter.
\<close>

theorem play_keeps_bases_and_conserves_runners:
  "\<exists>s' outs' b'.
      apply_result s h r outs (bases_of b) = Inr (s', outs', bases_of b')
      \<and> sum_list (bases_of b') \<in> {0, 1, 2, 3}
      \<and> sum_list (bases_of b') \<le> sum_list (bases_of b) + 1
      \<and> runs_on_play s s' + sum_list (bases_of b') \<le> sum_list (bases_of b) + 1"
proof -
  obtain f sd t where b: "b = (f, sd, t)"
    by (cases b) auto
  show ?thesis unfolding b by (rule play_bounds)
qed

section \<open>At-bat resolver: verification\<close>

lemmas tuning_constants =
  AVG_WHIP_def WHIP_COEFF_def DEFENSE_DIVISOR_def WALK_RATE_def SINGLE_RATE_def
  XBH_RATE_def TRIPLE_CHANCE_def ISO_MULTIPLIER_def

lemma clamp_max_min: "lo \<le> hi \<Longrightarrow> max lo (min hi x) = clamp x lo hi"
  by (auto simp: clamp_def max_def min_def)

lemma adjusted_obp_spec: "adjusted_obp b pit f = spec_adjusted_obp (obp b) (whip pit) f"
  unfolding adjusted_obp_def spec_adjusted_obp_def Let_def tuning_constants
  by (rule clamp_max_min) simp

lemma adjusted_obp_range: "0.100 \<le> adjusted_obp b pit f \<and> adjusted_obp b pit f \<le> 0.700"
  by (simp add: adjusted_obp_def Let_def max_def min_def)

text \<open>
  C3. For every batter, pitcher, defense rating and fatigue, and every generator \<open>g\<close>
  that has handed out \<open>p\<close> values: the resolver returns the outcome of the
  specification's pipeline on the draws it makes, \<open>r1 = g p\<close>, \<open>r2 = g (p + 1)\<close>,
  \<open>r3 = g (p + 2)\<close>, and as \<open>r4\<close> in the extra-base branch or \<open>r5\<close> in the power branch
  the next value \<open>g (p + 3)\<close>; it consumes the draws of the pipeline and no more (one
  when \<open>r1\<close> exceeds the adjusted OBP); and the adjusted OBP is the clamped value of the
  specification, always within 0.100 and 0.700.
\<close>

theorem at_bat_follows_pipeline:
  "simulate_at_bat g p b (Some pit) d f =
     Inr (spec_at_bat (obp b) (ops b) (whip pit) d f
            (g p) (g (p + 1)) (g (p + 2)) (g (p + 3)) (g (p + 3)),
          p + spec_draws (obp b) (whip pit) d f (g p) (g (p + 1)) (g (p + 2)))
   \<and> adjusted_obp b pit f = spec_adjusted_obp (obp b) (whip pit) f
   \<and> 0.100 \<le> adjusted_obp b pit f \<and> adjusted_obp b pit f \<le> 0.700"
proof -
  have "simulate_at_bat g p b (Some pit) d f =
     Inr (spec_at_bat (obp b) (ops b) (whip pit) d f
            (g p) (g (p + 1)) (g (p + 2)) (g (p + 3)) (g (p + 3)),
          p + spec_draws (obp b) (whip pit) d f (g p) (g (p + 1)) (g (p + 2)))"
    by (simp add: simulate_at_bat_def adjusted_obp_spec spec_at_bat_def spec_draws_def
          defense_save_chance_def power_threshold_def tuning_constants Let_def)
  then show ?thesis
    using adjusted_obp_spec [of b pit f] adjusted_obp_range [of b pit f] by simp
qed

text \<open>
  C10. The save chance has no upper bound: it is at least 1 for a defense rating of 300
  or more, and then, for every batter, pitcher and fatigue and every generator whose
  values lie in \<open>[0, 1)\<close>, the at-bat is an out, decided by the second draw at the
  latest, so the hit-type branch is never reached. A negative rating \<open>d'\<close> has save
  chance 0.
\<close>

theorem defense_of_300_always_out:
  assumes "300 \<le> d" and "\<forall>n. 0 \<le> g n \<and> g n < 1" and "d' < 0"
  shows "(\<exists>n. simulate_at_bat g p b (Some pit) d f = Inr (OUT, n) \<and> n \<le> p + 2)
     \<and> 1 \<le> defense_save_chance d \<and> defense_save_chance d' = 0"
proof -
  from assms(1) have one: "1 \<le> defense_save_chance d"
    by (simp add: defense_save_chance_def DEFENSE_DIVISOR_def max_def)
  from assms(2) have "g (p + 1) < 1"
    by simp
  with one have "g (p + 1) < defense_save_chance d"
    by linarith
  then have "\<exists>n. simulate_at_bat g p b (Some pit) d f = Inr (OUT, n) \<and> n \<le> p + 2"
    by (simp add: simulate_at_bat_def)
  moreover from assms(3) have "defense_save_chance d' = 0"
    by (simp add: defense_save_chance_def DEFENSE_DIVISOR_def max_def)
  ultimately show ?thesis
    using one by simp
qed

theorem defense_of_300_always_out_witness:
  "(\<exists>n. simulate_at_bat (\<lambda>_. 0) 0 example_batter (Some example_pitcher) 300 0 = Inr (OUT, n)
        \<and> n \<le> 0 + 2)
   \<and> 1 \<le> defense_save_chance 300 \<and> defense_save_chance (- 1) = 0"
  using defense_of_300_always_out [of 300 "\<lambda>_. 0" "- 1" 0 example_batter example_pitcher 0]
  by simp

section \<open>Roster selection: verification\<close>

lemma sorted_better_count:
  fixes f :: "'a \<Rightarrow> real"
  assumes "k < length ps"
  shows "length (filter (\<lambda>q. f q < f (sort_key f ps ! k)) ps) \<le> k"
proof -
  let ?xs = "sort_key f ps"
  let ?P = "\<lambda>q. f q < f (?xs ! k)"
  have k: "k < length ?xs"
    using assms by simp
  have srt: "sorted (map f ?xs)"
    by (rule sorted_sort_key)
  have "filter ?P (drop k ?xs) = []"
  proof -
    have "\<not> ?P q" if "q \<in> set (drop k ?xs)" for q
    proof -
      from that obtain i where i: "i < length (drop k ?xs)" "q = drop k ?xs ! i"
        by (auto simp: in_set_conv_nth)
      then have q: "q = ?xs ! (k + i)" and ki: "k + i < length ?xs"
        by auto
      from srt k ki have "map f ?xs ! k \<le> map f ?xs ! (k + i)"
        by (intro sorted_nth_mono) auto
      with k ki q show ?thesis
        by simp
    qed
    then show ?thesis
      by (simp add: filter_empty_conv)
  qed
  then have "filter ?P ?xs = filter ?P (take k ?xs)"
    by (metis append_Nil2 append_take_drop_id filter_append)
  then have "length (filter ?P ?xs) \<le> k"
    by (metis k length_filter_le length_take min.absorb2 less_imp_le_nat)
  moreover have "length (filter ?P ?xs) = length (filter ?P ps)"
    by (simp add: filter_sort)
  ultimately show ?thesis
    by simp
qed

lemma top3_length: "length (top3_pitchers t) = min 3 (length (pitchers t))"
  by (simp add: top3_pitchers_def)

lemma top3_small_pool:
  "length (pitchers t) \<le> 3 \<Longrightarrow> set (top3_pitchers t) = set (pitchers t)"
  by (simp add: top3_pitchers_def)

lemma top3_nth:
  assumes "k < length (top3_pitchers t)"
  shows "top3_pitchers t ! k \<in> set (pitchers t)"
    and "length (filter (\<lambda>q. pitcher.overall q > pitcher.overall (top3_pitchers t ! k))
           (pitchers t)) < 3"
proof -
  let ?f = "\<lambda>p. - pitcher.overall p"
  from assms have k: "k < 3" "k < length (pitchers t)"
    by (simp_all add: top3_pitchers_def)
  then have nth: "top3_pitchers t ! k = sort_key ?f (pitchers t) ! k"
    by (simp add: top3_pitchers_def)
  have "sort_key ?f (pitchers t) ! k \<in> set (sort_key ?f (pitchers t))"
    using k by (intro nth_mem) simp
  then show "top3_pitchers t ! k \<in> set (pitchers t)"
    using nth by simp
  from sorted_better_count [OF k(2), of ?f] k(1)
  show "length (filter (\<lambda>q. pitcher.overall q > pitcher.overall (top3_pitchers t ! k))
          (pitchers t)) < 3"
    unfolding nth by simp
qed

lemma no_pitcher_iff: "(get_starting_pitcher rb t = Inr None) = (pitchers t = [])"
  by (auto simp: get_starting_pitcher_def bind_result_def split: sum.splits)

lemma pitcher_chosen:
  assumes "pitchers t \<noteq> []" and "rb (length (top3_pitchers t)) < length (top3_pitchers t)"
  shows "get_starting_pitcher rb t =
           Inr (Some (top3_pitchers t ! rb (length (top3_pitchers t))))"
  using assms
  by (auto simp: get_starting_pitcher_def random_choice_def getitem_def bind_result_def)

lemma play_without_pitcher:
  "hp = None \<or> ap = None \<Longrightarrow>
     play g (Engine_init home away hp ap pos) = Some (Inl AttributeError)"
  by (auto simp: play_def Engine_init_def split: option.splits)

lemma example_top3:
  "top3_pitchers example_team = [rated_pitcher 90, rated_pitcher 85, rated_pitcher 80]"
  by (simp add: top3_pitchers_def example_team_def rated_pitcher_def)

text \<open>
  C9. \<open>get_starting_pitcher\<close> returns \<open>None\<close> exactly for an empty pool. For a pool that
  is not empty, and a generator whose integer draw lies below its bound, it returns the
  pitcher at the drawn position of the first three of the pool sorted by descending
  rating: a pitcher of the pool whom fewer than three others outrate; the list drawn from
  has three elements or the length of the pool, holds the whole pool if that has at most
  three, and every position of it is returned for some draw. When either team has no
  pitcher, the simulation that \<open>main\<close> starts raises before any inning is played (the
  exception comes from the pitching matchup line that \<open>play\<close> prints first).
\<close>

theorem starting_pitcher_selection:
  assumes "\<forall>n. 0 < n \<longrightarrow> rb n < n" and "\<forall>n. 0 < n \<longrightarrow> rb' n < n"
    and "pitchers t \<noteq> []"
    and "length (pitchers t1) \<le> 3"
    and "pitchers away = [] \<or> pitchers home = []"
  shows "(get_starting_pitcher rb t0 = Inr None) = (pitchers t0 = [])
    \<and> (\<exists>p. get_starting_pitcher rb t = Inr (Some p)
          \<and> p = top3_pitchers t ! rb (length (top3_pitchers t))
          \<and> p \<in> set (pitchers t)
          \<and> length (filter (\<lambda>q. pitcher.overall q > pitcher.overall p) (pitchers t)) < 3)
    \<and> length (top3_pitchers t) = min 3 (length (pitchers t))
    \<and> set (top3_pitchers t1) = set (pitchers t1)
    \<and> (\<forall>k < length (top3_pitchers t).
          get_starting_pitcher (\<lambda>n. k) t = Inr (Some (top3_pitchers t ! k)))
    \<and> main_simulation g rb rb' away home = Some (Inl AttributeError)"
proof -
  have len: "0 < length (top3_pitchers t)"
    using assms(3) by (simp add: top3_length)
  with assms(1) have k: "rb (length (top3_pitchers t)) < length (top3_pitchers t)"
    by simp
  have chosen: "\<exists>p. get_starting_pitcher rb t = Inr (Some p)
          \<and> p = top3_pitchers t ! rb (length (top3_pitchers t))
          \<and> p \<in> set (pitchers t)
          \<and> length (filter (\<lambda>q. pitcher.overall q > pitcher.overall p) (pitchers t)) < 3"
    using pitcher_chosen [of t rb, OF assms(3) k] top3_nth [OF k] by simp
  have every: "\<forall>k < length (top3_pitchers t).
          get_starting_pitcher (\<lambda>n. k) t = Inr (Some (top3_pitchers t ! k))"
  proof (intro allI impI)
    fix k assume "k < length (top3_pitchers t)"
    with pitcher_chosen [of t "\<lambda>n. k", OF assms(3)]
    show "get_starting_pitcher (\<lambda>n. k) t = Inr (Some (top3_pitchers t ! k))"
      by simp
  qed
  have sel: "\<exists>p. get_starting_pitcher r u = Inr p \<and> (p = None) = (pitchers u = [])"
    if "\<forall>n. 0 < n \<longrightarrow> r n < n" for r u
  proof (cases "pitchers u = []")
    case True
    then show ?thesis
      by (simp add: get_starting_pitcher_def)
  next
    case False
    then have "0 < length (top3_pitchers u)"
      by (simp add: top3_length)
    with that have "r (length (top3_pitchers u)) < length (top3_pitchers u)"
      by simp
    from pitcher_chosen [of u r, OF False this] False show ?thesis
      by simp
  qed
  from sel [OF assms(1), of away] obtain ap where
    ap: "get_starting_pitcher rb away = Inr ap" "(ap = None) = (pitchers away = [])"
    by blast
  from sel [OF assms(2), of home] obtain hp where
    hp: "get_starting_pitcher rb' home = Inr hp" "(hp = None) = (pitchers home = [])"
    by blast
  from assms(5) ap(2) hp(2) have "hp = None \<or> ap = None"
    by blast
  then have "main_simulation g rb rb' away home = Some (Inl AttributeError)"
    by (simp add: main_simulation_def ap(1) hp(1) play_without_pitcher)
  with chosen every show ?thesis
    using no_pitcher_iff [of rb t0] top3_length [of t] top3_small_pool [OF assms(4)]
    by blast
qed

theorem starting_pitcher_selection_witness:
  "get_starting_pitcher (\<lambda>n. n - 1) no_pitcher_team = Inr None
   \<and> get_starting_pitcher (\<lambda>n. n - 1) example_team = Inr (Some (rated_pitcher 80))
   \<and> set (top3_pitchers two_pitcher_team) = {rated_pitcher 70, rated_pitcher 90}
   \<and> main_simulation (\<lambda>n. 0) (\<lambda>n. n - 1) (\<lambda>n. 0) no_pitcher_team example_team =
       Some (Inl AttributeError)"
proof -
  have below: "\<forall>n. 0 < n \<longrightarrow> (\<lambda>n. n - 1) n < (n::nat)"
      "\<forall>n. 0 < n \<longrightarrow> (\<lambda>n. 0) n < (n::nat)"
    by simp_all
  have none: "pitchers no_pitcher_team = []"
    by (simp add: no_pitcher_team_def)
  have two: "pitchers two_pitcher_team = [rated_pitcher 70, rated_pitcher 90]"
    by (simp add: two_pitcher_team_def)
  have pool: "pitchers example_team \<noteq> []"
    by (simp add: example_team_def)
  have small: "length (pitchers two_pitcher_team) \<le> 3"
    by (simp add: two)
  have missing: "pitchers no_pitcher_team = [] \<or> pitchers example_team = []"
    by (simp add: none)
  from starting_pitcher_selection [OF below pool small missing, of no_pitcher_team "\<lambda>n. 0"]
  show ?thesis
    by (simp add: example_top3 none two)
qed


section \<open>Drivers: what an at-bat and a half-inning leave unchanged\<close>

lemma add_runs_fields:
  "inning (add_runs s h r) = inning s"
  "home_pitcher_fatigue (add_runs s h r) = home_pitcher_fatigue s"
  "away_pitcher_fatigue (add_runs s h r) = away_pitcher_fatigue s"
  "home_pitcher (add_runs s h r) = home_pitcher s"
  "away_pitcher (add_runs s h r) = away_pitcher s"
  "home_team (add_runs s h r) = home_team s"
  "away_team (add_runs s h r) = away_team s"
  "rng_pos (add_runs s h r) = rng_pos s"
  by (simp_all add: add_runs_def)

lemma set_batter_index_fields:
  "inning (set_batter_index s bt i) = inning s"
  "home_pitcher_fatigue (set_batter_index s bt i) = home_pitcher_fatigue s"
  "away_pitcher_fatigue (set_batter_index s bt i) = away_pitcher_fatigue s"
  "home_pitcher (set_batter_index s bt i) = home_pitcher s"
  "away_pitcher (set_batter_index s bt i) = away_pitcher s"
  "home_score (set_batter_index s bt i) = home_score s"
  "away_score (set_batter_index s bt i) = away_score s"
  "rng_pos (set_batter_index s bt i) = rng_pos s"
  by (cases bt; simp)+

lemma advance_runners_engine:
  assumes "advance_runners s bases hits w h = Inr (s', bs)"
  shows "\<exists>runs. s' = add_runs s h runs"
proof -
  from assms obtain bs0 runs where
    "s' = (if runs > 0 then add_runs s h runs else s)"
    by (auto simp: advance_runners_def bind_result_def split: sum.splits)
  then have "s' = add_runs s h (if runs > 0 then runs else 0)"
    by (simp add: add_runs_zero)
  then show ?thesis ..
qed

lemma apply_result_engine:
  assumes "apply_result s h r outs bases = Inr (s', outs', bs')"
  shows "\<exists>runs. s' = add_runs s h runs"
proof (cases r)
  case OUT
  with assms have "s' = add_runs s h 0" by (simp add: add_runs_zero)
  then show ?thesis ..
next
  case HR
  with assms show ?thesis by auto
next
  case WALK
  with assms show ?thesis
    by (auto simp: bind_result_def split: sum.splits dest: advance_runners_engine)
next
  case SINGLE
  with assms show ?thesis
    by (auto simp: bind_result_def split: sum.splits dest: advance_runners_engine)
next
  case DOUBLE
  with assms show ?thesis
    by (auto simp: bind_result_def split: sum.splits dest: advance_runners_engine)
next
  case TRIPLE
  with assms show ?thesis
    by (auto simp: bind_result_def split: sum.splits dest: advance_runners_engine)
qed

lemma same_frame_refl: "same_frame s s"
  by (simp add: same_frame_def)

lemma same_frame_trans: "same_frame s t \<Longrightarrow> same_frame t u \<Longrightarrow> same_frame s u"
  by (simp add: same_frame_def)

lemma at_bat_step_frame:
  assumes "at_bat_step g bt dt pit fat ih lineup s outs bases = Inr (s', outs', bases')"
  shows "same_frame s s'"
proof -
  from assms obtain i p' r s2 where
    ap: "apply_result (s\<lparr>rng_pos := p'\<rparr>) ih r outs bases = Inr (s2, outs', bases')"
    and s': "s' = set_batter_index s2 bt ((i + 1) mod 9)"
    by (auto simp: at_bat_step_def bind_result_def split: option.splits sum.splits)
  from apply_result_engine [OF ap] obtain runs where "s2 = add_runs (s\<lparr>rng_pos := p'\<rparr>) ih runs" ..
  with s' show ?thesis
    by (simp add: same_frame_def set_batter_index_fields add_runs_fields)
qed

lemma half_inning_loop_frame:
  assumes "half_inning_loop g bt dt pit fat ih lineup s outs bases = Some (Inr s')"
  shows "same_frame s s'"
proof -
  have "\<forall>t. (Inr s' :: error + engine) = Inr t \<longrightarrow> same_frame s t"
  proof (rule half_inning_loop.raw_induct
      [where P = "\<lambda>_ _ _ _ _ _ _ s _ _ y. \<forall>t. y = Inr t \<longrightarrow> same_frame s t", OF _ assms])
    fix loop g bt dt pit fat ih lineup s outs bases y
    assume IH: "\<And>g bt dt pit fat ih lineup s outs bases y.
        loop g bt dt pit fat ih lineup s outs bases = Some y \<Longrightarrow>
        \<forall>t. y = Inr t \<longrightarrow> same_frame s t"
      and eq: "(if outs < 3
         then if 9 \<le> inning s \<and> ih \<and> away_score s < home_score s then Some (Inr s)
           else case at_bat_step g bt dt pit fat ih lineup s outs bases of
                  Inl e \<Rightarrow> Some (Inl e)
                | Inr (s', outs', bases') \<Rightarrow> loop g bt dt pit fat ih lineup s' outs' bases'
         else Some (Inr s)) = Some y"
    show "\<forall>t. y = Inr t \<longrightarrow> same_frame s t"
    proof (cases "outs < 3")
      case False
      with eq have "y = Inr s" by simp
      then show ?thesis by (simp add: same_frame_refl)
    next
      case outs: True
      show ?thesis
      proof (cases "9 \<le> inning s \<and> ih \<and> away_score s < home_score s")
        case True
        with outs eq have "y = Inr s" by simp
        then show ?thesis by (simp add: same_frame_refl)
      next
        case False
        show ?thesis
        proof (cases "at_bat_step g bt dt pit fat ih lineup s outs bases")
          case (Inl e)
          with outs False eq show ?thesis by auto
        next
          case (Inr r)
          obtain s1 outs1 bases1 where r: "r = (s1, outs1, bases1)" by (cases r) auto
          from eq have "loop g bt dt pit fat ih lineup s1 outs1 bases1 = Some y"
            unfolding Inr r using outs False by simp
          from IH [OF this] have "\<forall>t. y = Inr t \<longrightarrow> same_frame s1 t" .
          moreover from Inr r have "same_frame s s1"
            by (auto dest: at_bat_step_frame)
          ultimately show ?thesis
            by (blast intro: same_frame_trans)
        qed
      qed
    qed
  qed
  then show ?thesis by simp
qed

lemma set_batter_index_frame: "same_frame s (set_batter_index s bt i)"
  by (simp add: same_frame_def set_batter_index_fields)

lemma play_half_inning_frame:
  assumes "play_half_inning g s bt dt pit fat ih = Some (Inr s')"
  shows "same_frame s s'"
  using assms
  by (auto simp: play_half_inning_def Let_def split: if_splits
      dest!: half_inning_loop_frame intro: same_frame_trans [OF set_batter_index_frame])

lemma play_inning_frame:
  assumes "play_inning g s = Some (Inr s')"
  shows "same_frame s s'"
  using assms
  by (auto simp: play_inning_def split: option.splits sum.splits if_splits
      dest!: play_half_inning_frame intro: same_frame_trans)

section \<open>Half-inning driver: evaluation\<close>

lemma half_inning_loop_done:
  "\<not> outs < 3 \<Longrightarrow> half_inning_loop g bt dt pit fat ih lineup s outs bases = Some (Inr s)"
  by (subst half_inning_loop.simps) simp

lemma half_inning_loop_walk_off:
  "9 \<le> inning s \<Longrightarrow> away_score s < home_score s \<Longrightarrow>
     half_inning_loop g bt dt pit fat True lineup s outs bases = Some (Inr s)"
  by (subst half_inning_loop.simps) simp

lemma half_inning_loop_at_bat:
  "outs < 3 \<Longrightarrow> \<not> (9 \<le> inning s \<and> ih \<and> away_score s < home_score s) \<Longrightarrow>
     half_inning_loop g bt dt pit fat ih lineup s outs bases =
       (case at_bat_step g bt dt pit fat ih lineup s outs bases of
          Inl e \<Rightarrow> Some (Inl e)
        | Inr (s', outs', bases') \<Rightarrow>
            half_inning_loop g bt dt pit fat ih lineup s' outs' bases')"
  by (subst half_inning_loop.simps) auto

lemma simulate_at_bat_out:
  "0.700 < g p \<Longrightarrow> simulate_at_bat g p b (Some pit) d f = Inr (OUT, p + 1)"
  using adjusted_obp_range [of b pit f] by (simp add: simulate_at_bat_def)

lemma at_bat_step_out:
  assumes "current_batter_index (deref s bt) = Some i" and "i < length lineup"
    and "0.700 < g (rng_pos s)"
  shows "at_bat_step g bt dt (Some pit) fat ih lineup s outs bases =
           Inr (set_batter_index (s\<lparr>rng_pos := rng_pos s + 1\<rparr>) bt ((i + 1) mod 9),
                outs + 1, bases)"
  using assms by (simp add: at_bat_step_def bind_result_def getitem_def simulate_at_bat_out)

lemma at_bat_step_index_error:
  assumes "current_batter_index (deref s bt) = Some i" and "length lineup \<le> i"
  shows "at_bat_step g bt dt pit fat ih lineup s outs bases = Inl IndexError"
  using assms by (simp add: at_bat_step_def bind_result_def getitem_def)

lemma batted_state:
  "current_batter_index (deref (set_batter_index (s\<lparr>rng_pos := p\<rparr>) bt j) bt) = Some j"
  "rng_pos (set_batter_index (s\<lparr>rng_pos := p\<rparr>) bt j) = p"
  "inning (set_batter_index (s\<lparr>rng_pos := p\<rparr>) bt j) = inning s"
  "home_score (set_batter_index (s\<lparr>rng_pos := p\<rparr>) bt j) = home_score s"
  "away_score (set_batter_index (s\<lparr>rng_pos := p\<rparr>) bt j) = away_score s"
  "set_batter_index ((set_batter_index (s\<lparr>rng_pos := p\<rparr>) bt j)\<lparr>rng_pos := q\<rparr>) bt k =
     set_batter_index (s\<lparr>rng_pos := q\<rparr>) bt k"
  by (cases bt; simp)+

lemma out_step:
  assumes "\<forall>n. 0.700 < g n"
    and "current_batter_index (deref s bt) = Some j" and "j < length lineup"
    and "outs < 3" and "\<not> (9 \<le> inning s \<and> ih \<and> away_score s < home_score s)"
  shows "half_inning_loop g bt dt (Some pit) fat ih lineup s outs bases =
           half_inning_loop g bt dt (Some pit) fat ih lineup
             (set_batter_index (s\<lparr>rng_pos := rng_pos s + 1\<rparr>) bt ((j + 1) mod 9))
             (outs + 1) bases"
  using assms
  by (simp add: half_inning_loop_at_bat [OF assms(4,5)] at_bat_step_out [OF assms(2,3)])

lemma three_outs:
  assumes g: "\<forall>n. 0.700 < g n"
    and i: "current_batter_index (deref s bt) = Some i"
    and lineup: "i < length lineup" "(i + 1) mod 9 < length lineup"
      "(i + 2) mod 9 < length lineup"
    and nw: "\<not> (9 \<le> inning s \<and> ih \<and> away_score s < home_score s)"
  shows "half_inning_loop g bt dt (Some pit) fat ih lineup s 0 bases =
           Some (Inr (set_batter_index (s\<lparr>rng_pos := rng_pos s + 3\<rparr>) bt ((i + 3) mod 9)))"
proof -
  let ?s1 = "set_batter_index (s\<lparr>rng_pos := rng_pos s + 1\<rparr>) bt ((i + 1) mod 9)"
  let ?s2 = "set_batter_index (s\<lparr>rng_pos := rng_pos s + 2\<rparr>) bt ((i + 2) mod 9)"
  let ?s3 = "set_batter_index (s\<lparr>rng_pos := rng_pos s + 3\<rparr>) bt ((i + 3) mod 9)"
  let ?loop = "half_inning_loop g bt dt (Some pit) fat ih lineup"
  have nw1: "\<not> (9 \<le> inning ?s1 \<and> ih \<and> away_score ?s1 < home_score ?s1)"
    and nw2: "\<not> (9 \<le> inning ?s2 \<and> ih \<and> away_score ?s2 < home_score ?s2)"
    using nw by (simp_all add: batted_state)
  have arith: "rng_pos s + 1 + 1 = rng_pos s + 2" "rng_pos s + 2 + 1 = rng_pos s + 3"
      "((i + 1) mod 9 + 1) mod 9 = (i + 2) mod 9" "((i + 2) mod 9 + 1) mod 9 = (i + 3) mod 9"
      "(0::int) + 1 = 1" "(1::int) + 1 = 2" "(2::int) + 1 = 3"
    by (simp_all add: mod_simps add.commute)
  have "?loop s 0 bases = ?loop ?s1 1 bases"
    using out_step [where outs = 0, OF g i lineup(1) _ nw] by (simp only: arith | simp)+
  also have "\<dots> = ?loop ?s2 2 bases"
    using out_step [where s = ?s1 and outs = 1, OF g batted_state(1) lineup(2) _ nw1]
    by (simp only: batted_state arith | simp)+
  also have "\<dots> = ?loop ?s3 3 bases"
    using out_step [where s = ?s2 and outs = 2, OF g batted_state(1) lineup(3) _ nw2]
    by (simp only: batted_state arith | simp)+
  also have "\<dots> = Some (Inr ?s3)"
    by (rule half_inning_loop_done) simp
  finally show ?thesis .
qed

lemma indexed_state:
  "current_batter_index (deref (set_batter_index s bt j) bt) = Some j"
  "set_batter_index ((set_batter_index s bt j)\<lparr>rng_pos := q\<rparr>) bt k =
     set_batter_index (s\<lparr>rng_pos := q\<rparr>) bt k"
  by (cases bt; simp)+

lemma play_half_inning_three_outs:
  assumes g: "\<forall>n. 0.700 < g n"
    and idx: "i = (case current_batter_index (deref s bt) of None \<Rightarrow> 0 | Some j \<Rightarrow> j)"
    and lineup: "i < length (get_starting_lineup (deref s bt))"
      "(i + 1) mod 9 < length (get_starting_lineup (deref s bt))"
      "(i + 2) mod 9 < length (get_starting_lineup (deref s bt))"
    and nw: "\<not> (9 \<le> inning s \<and> ih \<and> away_score s < home_score s)"
  shows "play_half_inning g s bt dt (Some pit) fat ih =
           Some (Inr (set_batter_index (s\<lparr>rng_pos := rng_pos s + 3\<rparr>) bt ((i + 3) mod 9)))"
proof (cases "current_batter_index (deref s bt)")
  case None
  let ?s1 = "set_batter_index s bt 0"
  from None idx have i0: "i = 0"
    by simp
  have nw1: "\<not> (9 \<le> inning ?s1 \<and> ih \<and> away_score ?s1 < home_score ?s1)"
    using nw by (simp add: set_batter_index_fields)
  from three_outs [where s = ?s1 and i = 0, OF g indexed_state(1) _ _ _ nw1] lineup
  show ?thesis
    unfolding i0 by (simp add: play_half_inning_def None indexed_state set_batter_index_fields)
next
  case (Some j)
  with idx have "i = j"
    by simp
  with Some three_outs [where i = i, OF g _ lineup nw] show ?thesis
    by (simp add: play_half_inning_def)
qed

lemma lineup_of_nine: "9 \<le> length (batters t) \<Longrightarrow> length (get_starting_lineup t) = 9"
  by (simp add: get_starting_lineup_def)

lemma short_lineup: "length (batters t) < 9 \<Longrightarrow> get_starting_lineup t = batters t"
  by (simp add: get_starting_lineup_def)

lemma ready_batted:
  "ready s \<Longrightarrow> k < 9 \<Longrightarrow> ready (set_batter_index (s\<lparr>rng_pos := p\<rparr>) bt k)"
  by (cases bt) (simp_all add: ready_def)

lemma ready_end_inning: "ready s \<Longrightarrow> ready (end_inning s)"
  by (simp add: ready_def end_inning_def)

lemma ready_lineup:
  assumes "ready s"
    and "i = (case current_batter_index (deref s bt) of None \<Rightarrow> 0 | Some j \<Rightarrow> j)"
  shows "i < length (get_starting_lineup (deref s bt))"
    and "(i + 1) mod 9 < length (get_starting_lineup (deref s bt))"
    and "(i + 2) mod 9 < length (get_starting_lineup (deref s bt))"
proof -
  from assms(1) have "length (get_starting_lineup (deref s bt)) = 9"
    by (cases bt) (simp_all add: ready_def lineup_of_nine)
  moreover from assms have "i < 9"
    by (cases bt) (auto simp: ready_def split: option.splits)
  ultimately show "i < length (get_starting_lineup (deref s bt))"
    and "(i + 1) mod 9 < length (get_starting_lineup (deref s bt))"
    and "(i + 2) mod 9 < length (get_starting_lineup (deref s bt))"
    by simp_all
qed

lemma all_out_half_inning:
  assumes g: "\<forall>n. 0.700 < g n" and r: "ready s"
    and nw: "\<not> (9 \<le> inning s \<and> ih \<and> away_score s < home_score s)"
  shows "\<exists>s'. play_half_inning g s bt dt (Some pit) fat ih = Some (Inr s')
          \<and> ready s' \<and> home_score s' = home_score s \<and> away_score s' = away_score s
          \<and> rng_pos s' = rng_pos s + 3"
proof -
  define i where "i = (case current_batter_index (deref s bt) of None \<Rightarrow> 0 | Some j \<Rightarrow> j)"
  let ?s' = "set_batter_index (s\<lparr>rng_pos := rng_pos s + 3\<rparr>) bt ((i + 3) mod 9)"
  have "play_half_inning g s bt dt (Some pit) fat ih = Some (Inr ?s')"
    by (rule play_half_inning_three_outs [OF g i_def ready_lineup [OF r i_def] nw])
  moreover have "ready ?s'"
    by (rule ready_batted [OF r]) simp
  ultimately show ?thesis
    by (simp add: batted_state)
qed

lemma all_out_inning:
  assumes g: "\<forall>n. 0.700 < g n" and r: "ready s"
  shows "\<exists>s'. play_inning g s = Some (Inr s')
          \<and> ready s' \<and> home_score s' = home_score s \<and> away_score s' = away_score s
          \<and> rng_pos s' = rng_pos s + (if 9 \<le> inning s \<and> away_score s < home_score s then 3 else 6)"
proof -
  from r obtain hp ap where p: "home_pitcher s = Some hp" "away_pitcher s = Some ap"
    by (auto simp: ready_def)
  from all_out_half_inning [OF g r, of False AwayTeam HomeTeam hp "home_pitcher_fatigue s"]
  obtain s1 where top: "play_half_inning g s AwayTeam HomeTeam (Some hp) (home_pitcher_fatigue s) False = Some (Inr s1)"
    and s1: "ready s1" "home_score s1 = home_score s" "away_score s1 = away_score s"
      "rng_pos s1 = rng_pos s + 3"
    by auto
  from play_half_inning_frame [OF top] have f1: "inning s1 = inning s" "away_pitcher s1 = Some ap"
    by (simp_all add: same_frame_def p)
  show ?thesis
  proof (cases "9 \<le> inning s \<and> away_score s < home_score s")
    case True
    with top s1 f1 show ?thesis
      by (simp add: play_inning_def p)
  next
    case False
    then have nw: "\<not> (9 \<le> inning s1 \<and> True \<and> away_score s1 < home_score s1)"
      by (simp add: s1 f1)
    from all_out_half_inning [OF g s1(1) nw, of HomeTeam AwayTeam ap "away_pitcher_fatigue s1"]
    obtain s2 where "play_half_inning g s1 HomeTeam AwayTeam (Some ap) (away_pitcher_fatigue s1) True = Some (Inr s2)"
      and "ready s2" "home_score s2 = home_score s1" "away_score s2 = away_score s1"
      "rng_pos s2 = rng_pos s1 + 3"
      by auto
    with False top s1 f1 show ?thesis
      by (simp add: play_inning_def p)
  qed
qed

section \<open>Game driver: verification\<close>

lemma play_loop_guard:
  "play_loop g s =
     (if (inning s \<le> 9 \<or> away_score s = home_score s) \<and> inning s \<le> 15 then
        (case play_inning g s of
           None \<Rightarrow> None
         | Some (Inl e) \<Rightarrow> Some (Inl e)
         | Some (Inr s1) \<Rightarrow> play_loop g (end_inning s1))
      else Some (Inr s))"
  by (subst play_loop.simps) auto

lemma play_loop_stop:
  "\<not> ((inning s \<le> 9 \<or> away_score s = home_score s) \<and> inning s \<le> 15) \<Longrightarrow>
     play_loop g s = Some (Inr s)"
  by (subst play_loop_guard) (rule if_not_P)

lemma play_loop_continue:
  assumes "(inning s \<le> 9 \<or> away_score s = home_score s) \<and> inning s \<le> 15"
    and "play_inning g s = Some (Inr s1)"
  shows "play_loop g s = play_loop g (end_inning s1)"
  by (subst play_loop_guard) (simp only: if_P [OF assms(1)] assms(2) option.case sum.case)

lemma loop_head_play_loop: "loop_head g s0 s \<Longrightarrow> play_loop g s0 = play_loop g s"
proof (induction rule: loop_head.induct)
  case loop_head_start
  show ?case ..
next
  case (loop_head_next s s1)
  then show ?case
    by (simp add: play_loop_continue)
qed

lemma end_inning_fields:
  "inning (end_inning s) = inning s + 1"
  "home_pitcher_fatigue (end_inning s) = home_pitcher_fatigue s + 0.05"
  "away_pitcher_fatigue (end_inning s) = away_pitcher_fatigue s + 0.05"
  "home_score (end_inning s) = home_score s"
  "away_score (end_inning s) = away_score s"
  "home_team (end_inning s) = home_team s"
  "away_team (end_inning s) = away_team s"
  "home_pitcher (end_inning s) = home_pitcher s"
  "away_pitcher (end_inning s) = away_pitcher s"
  "rng_pos (end_inning s) = rng_pos s"
  by (simp_all add: end_inning_def)

lemma play_loop_returns:
  assumes step: "\<forall>s. P s \<and> inning s \<le> 15 \<longrightarrow>
      (\<exists>s'. play_inning g s = Some (Inr s') \<and> P (end_inning s'))"
  shows "P s \<Longrightarrow> inning s \<le> 16 \<Longrightarrow>
     \<exists>sf. play_loop g s = Some (Inr sf) \<and> P sf \<and> inning s \<le> inning sf
       \<and> 10 \<le> inning sf \<and> inning sf \<le> 16
       \<and> (away_score sf = home_score sf \<longrightarrow> inning sf = 16)"
proof (induction "nat (16 - inning s)" arbitrary: s rule: less_induct)
  case less
  show ?case
  proof (cases "(inning s \<le> 9 \<or> away_score s = home_score s) \<and> inning s \<le> 15")
    case False
    then have "play_loop g s = Some (Inr s)"
      by (rule play_loop_stop)
    with False less.prems show ?thesis
      by auto
  next
    case True
    with step less.prems obtain s' where s': "play_inning g s = Some (Inr s')" "P (end_inning s')"
      by blast
    from play_inning_frame [OF s'(1)] have inn: "inning (end_inning s') = inning s + 1"
      by (simp add: same_frame_def end_inning_fields)
    with True have "nat (16 - inning (end_inning s')) < nat (16 - inning s)"
      and "inning (end_inning s') \<le> 16"
      by simp_all
    from less.hyps [OF this(1) s'(2) this(2)] obtain sf where
      "play_loop g (end_inning s') = Some (Inr sf)" "P sf" "inning (end_inning s') \<le> inning sf"
      "10 \<le> inning sf" "inning sf \<le> 16" "away_score sf = home_score sf \<longrightarrow> inning sf = 16"
      by blast
    with inn show ?thesis
      by (simp add: play_loop_continue [OF True s'(1)])
  qed
qed

text \<open>
  C7. Let every inning played return normally: wherever an invariant \<open>P\<close> of the loop
  heads holds and the inning is at most 15, \<open>play_inning\<close> returns a state and \<open>P\<close> holds
  after the increments. Then from a loop head with \<open>P\<close> the game loop returns; the final
  inning number is at least 10 and at most 16, so no inning beyond the 15th is played;
  and a final state with the scores tied has inning number 16: a tie ends only by the
  cap. At every state the loop plays another inning exactly when the inning is at most 9
  or the scores are tied, and the inning is at most 15; otherwise it returns the state as
  it is.
\<close>

theorem game_ends_by_fifteenth_inning:
  assumes "\<forall>s. P s \<and> inning s \<le> 15 \<longrightarrow>
      (\<exists>s'. play_inning g s = Some (Inr s') \<and> P (end_inning s'))"
    and "P s0" and "inning s0 \<le> 16"
  shows "(\<exists>sf. play_loop g s0 = Some (Inr sf) \<and> P sf \<and> inning s0 \<le> inning sf
       \<and> 10 \<le> inning sf \<and> inning sf \<le> 16
       \<and> (away_score sf = home_score sf \<longrightarrow> inning sf = 16))
     \<and> (\<forall>s. play_loop g s =
          (if (inning s \<le> 9 \<or> away_score s = home_score s) \<and> inning s \<le> 15 then
             (case play_inning g s of
                None \<Rightarrow> None
              | Some (Inl e) \<Rightarrow> Some (Inl e)
              | Some (Inr s1) \<Rightarrow> play_loop g (end_inning s1))
           else Some (Inr s)))"
  using play_loop_returns [OF assms] play_loop_guard [of g] by blast

lemma all_outs_above: "\<forall>n. 0.700 < all_outs n"
  by (simp add: all_outs_def)

lemma ready_example_game: "ready example_game"
  by (simp add: ready_def example_game_def Engine_init_def example_team_def two_pitcher_team_def)

lemma example_game_fields:
  "inning example_game = 1" "home_score example_game = 0" "away_score example_game = 0"
  "rng_pos example_game = 0"
  "home_pitcher example_game = Some example_pitcher"
  "away_pitcher example_game = Some example_pitcher"
  by (simp_all add: example_game_def Engine_init_def)

theorem game_ends_by_fifteenth_inning_witness:
  "\<exists>sf. play_loop all_outs example_game = Some (Inr sf) \<and> inning sf = 16
        \<and> away_score sf = home_score sf"
proof -
  let ?P = "\<lambda>s. ready s \<and> away_score s = home_score s"
  have step: "\<forall>s. ?P s \<and> inning s \<le> 15 \<longrightarrow>
      (\<exists>s'. play_inning all_outs s = Some (Inr s') \<and> ?P (end_inning s'))"
  proof (intro allI impI)
    fix s assume "?P s \<and> inning s \<le> 15"
    then have r: "ready s" and tie: "away_score s = home_score s"
      by simp_all
    from all_out_inning [OF all_outs_above r] tie
    show "\<exists>s'. play_inning all_outs s = Some (Inr s') \<and> ?P (end_inning s')"
      by (auto simp: end_inning_fields intro: ready_end_inning)
  qed
  have start: "?P example_game" "inning example_game \<le> 16"
    by (simp_all add: ready_example_game example_game_fields)
  from game_ends_by_fifteenth_inning [of ?P all_outs example_game, OF step start, THEN conjunct1]
  show ?thesis
    by blast
qed

section \<open>Fatigue\<close>

lemma loop_head_fatigue:
  assumes "loop_head g (Engine_init home away hp ap pos) s"
  shows "home_pitcher_fatigue s = 0.05 * real_of_int (inning s - 1)
       \<and> away_pitcher_fatigue s = 0.05 * real_of_int (inning s - 1) \<and> 1 \<le> inning s"
  using assms
proof (induction rule: loop_head.induct)
  case loop_head_start
  show ?case
    by (simp add: Engine_init_def)
next
  case (loop_head_next s s1)
  from play_inning_frame [OF loop_head_next.hyps(4)] loop_head_next.IH show ?case
    by (simp add: same_frame_def end_inning_fields algebra_simps)
qed

lemma play_inning_fatigue_passed:
  "play_inning g s =
     (case play_half_inning g s AwayTeam HomeTeam (home_pitcher s)
             (home_pitcher_fatigue s) False of
        None \<Rightarrow> None
      | Some (Inl e) \<Rightarrow> Some (Inl e)
      | Some (Inr s1) \<Rightarrow>
          if 9 \<le> inning s1 \<and> away_score s1 < home_score s1 then Some (Inr s1)
          else play_half_inning g s1 HomeTeam AwayTeam (away_pitcher s1)
                 (away_pitcher_fatigue s) True)"
  by (auto simp: play_inning_def same_frame_def split: option.splits sum.splits
      dest!: play_half_inning_frame)

lemma play_half_inning_start:
  "play_half_inning g s bt dt pit fat ih =
     half_inning_loop g bt dt pit fat ih (get_starting_lineup (deref s bt))
       (half_inning_start s bt) 0 [0, 0, 0]"
  by (simp add: play_half_inning_def half_inning_start_def Let_def)

lemma half_inning_head_loop:
  assumes "half_inning_head g s bt dt pit fat ih t outs bases"
  shows "play_half_inning g s bt dt pit fat ih =
     half_inning_loop g bt dt pit fat ih (get_starting_lineup (deref s bt)) t outs bases"
  using assms
proof (induction rule: half_inning_head.induct)
  case half_inning_head_start
  show ?case
    by (rule play_half_inning_start)
next
  case (half_inning_head_next t outs bases t' outs' bases')
  then show ?case
    by (simp add: half_inning_loop_at_bat)
qed

lemma at_bat_step_resolver:
  assumes "at_bat_step g bt dt pit fat ih lineup t outs bases = Inr (t', outs', bases')"
  shows "\<exists>i b r p' t2. current_batter_index (deref t bt) = Some i \<and> getitem lineup i = Inr b
     \<and> simulate_at_bat g (rng_pos t) b pit (defense (deref t dt)) fat = Inr (r, p')
     \<and> apply_result (t\<lparr>rng_pos := p'\<rparr>) ih r outs bases = Inr (t2, outs', bases')
     \<and> t' = set_batter_index t2 bt ((i + 1) mod 9)"
  using assms
  by (auto simp: at_bat_step_def bind_result_def split: option.splits sum.splits)

lemma half_inning_start_index:
  "current_batter_index (deref (half_inning_start s bt) bt) =
     Some (case current_batter_index (deref s bt) of None \<Rightarrow> 0 | Some j \<Rightarrow> j)"
  by (cases bt) (auto simp: half_inning_start_def split: option.splits)

lemma half_inning_start_fields:
  "rng_pos (half_inning_start s bt) = rng_pos s"
  "inning (half_inning_start s bt) = inning s"
  by (simp_all add: half_inning_start_def set_batter_index_fields)

lemma first_at_bat_out:
  assumes g: "\<forall>n. 0.700 < g n" and r: "ready s"
  shows "\<exists>t'. at_bat_step g bt dt (Some pit) fat ih (get_starting_lineup (deref s bt))
           (half_inning_start s bt) 0 [0, 0, 0] = Inr (t', 1, [0, 0, 0])"
proof -
  define i where "i = (case current_batter_index (deref s bt) of None \<Rightarrow> 0 | Some j \<Rightarrow> j)"
  have idx: "current_batter_index (deref (half_inning_start s bt) bt) = Some i"
    by (simp add: half_inning_start_index i_def)
  from g have "0.700 < g (rng_pos (half_inning_start s bt))"
    by simp
  from at_bat_step_out
    [where s = "half_inning_start s bt" and g = g and bt = bt and i = i
       and lineup = "get_starting_lineup (deref s bt)" and outs = 0,
     OF idx ready_lineup(1) [OF r i_def] this]
  show ?thesis
    by simp
qed

text \<open>
  C8. Both fatigue values are 0 in a new engine. At every head of the game loop they
  equal 0.05 times the number of innings completed, \<open>inning - 1\<close>. An at-bat, and so a
  half-inning and an inning, leaves both unchanged, and the end of the inning adds
  exactly 0.05 to each, so neither ever decreases. \<open>play_inning\<close> hands the home
  pitcher's value at the inning's start to the top half and the away pitcher's value at
  the inning's start to the bottom half. At every head of the \<open>while\<close> loop of either
  half where an at-bat is resolved, the call of \<open>simulate_at_bat\<close> that resolves it has
  as its fatigue argument the value of the inning's start, 0.05 times \<open>inning - 1\<close>, with
  the pitcher of the defending side, and the half-inning continues from that head.
\<close>

theorem fatigue_accumulates_per_inning:
  assumes "loop_head g (Engine_init home away hp ap pos) s"
    and "play_inning g s = Some (Inr s1)"
    and "at_bat_step g bt dt pit fat ih lineup t outs bases = Inr (t', outs', bases')"
    and "half_inning_head g s AwayTeam HomeTeam (home_pitcher s) (home_pitcher_fatigue s) False
           ta outs_a bases_a"
    and "at_bat_step g AwayTeam HomeTeam (home_pitcher s) (home_pitcher_fatigue s) False
           (get_starting_lineup (away_team s)) ta outs_a bases_a = Inr (ta', outs_a', bases_a')"
    and "play_half_inning g s AwayTeam HomeTeam (home_pitcher s) (home_pitcher_fatigue s) False
           = Some (Inr sm)"
    and "half_inning_head g sm HomeTeam AwayTeam (away_pitcher sm) (away_pitcher_fatigue sm) True
           tb outs_b bases_b"
    and "at_bat_step g HomeTeam AwayTeam (away_pitcher sm) (away_pitcher_fatigue sm) True
           (get_starting_lineup (home_team sm)) tb outs_b bases_b = Inr (tb', outs_b', bases_b')"
  shows "home_pitcher_fatigue (Engine_init home away hp ap pos) = 0
     \<and> away_pitcher_fatigue (Engine_init home away hp ap pos) = 0
     \<and> home_pitcher_fatigue s = 0.05 * real_of_int (inning s - 1)
     \<and> away_pitcher_fatigue s = 0.05 * real_of_int (inning s - 1)
     \<and> home_pitcher_fatigue t' = home_pitcher_fatigue t
     \<and> away_pitcher_fatigue t' = away_pitcher_fatigue t
     \<and> home_pitcher_fatigue s1 = home_pitcher_fatigue s
     \<and> away_pitcher_fatigue s1 = away_pitcher_fatigue s
     \<and> home_pitcher_fatigue (end_inning s1) = home_pitcher_fatigue s + 0.05
     \<and> away_pitcher_fatigue (end_inning s1) = away_pitcher_fatigue s + 0.05
     \<and> play_inning g s =
         (case play_half_inning g s AwayTeam HomeTeam (home_pitcher s)
                 (home_pitcher_fatigue s) False of
            None \<Rightarrow> None
          | Some (Inl e) \<Rightarrow> Some (Inl e)
          | Some (Inr s1) \<Rightarrow>
              if 9 \<le> inning s1 \<and> away_score s1 < home_score s1 then Some (Inr s1)
              else play_half_inning g s1 HomeTeam AwayTeam (away_pitcher s1)
                     (away_pitcher_fatigue s) True)
     \<and> (\<exists>i b r p' t2.
           current_batter_index (away_team ta) = Some i
         \<and> getitem (get_starting_lineup (away_team s)) i = Inr b
         \<and> simulate_at_bat g (rng_pos ta) b (home_pitcher s) (defense (home_team ta))
             (0.05 * real_of_int (inning s - 1)) = Inr (r, p')
         \<and> apply_result (ta\<lparr>rng_pos := p'\<rparr>) False r outs_a bases_a =
             Inr (t2, outs_a', bases_a')
         \<and> ta' = set_batter_index t2 AwayTeam ((i + 1) mod 9))
     \<and> play_half_inning g s AwayTeam HomeTeam (home_pitcher s) (home_pitcher_fatigue s) False =
         half_inning_loop g AwayTeam HomeTeam (home_pitcher s)
           (0.05 * real_of_int (inning s - 1)) False (get_starting_lineup (away_team s))
           ta outs_a bases_a
     \<and> (\<exists>i b r p' t2.
           current_batter_index (home_team tb) = Some i
         \<and> getitem (get_starting_lineup (home_team sm)) i = Inr b
         \<and> simulate_at_bat g (rng_pos tb) b (away_pitcher s) (defense (away_team tb))
             (0.05 * real_of_int (inning s - 1)) = Inr (r, p')
         \<and> apply_result (tb\<lparr>rng_pos := p'\<rparr>) True r outs_b bases_b =
             Inr (t2, outs_b', bases_b')
         \<and> tb' = set_batter_index t2 HomeTeam ((i + 1) mod 9))
     \<and> play_half_inning g sm HomeTeam AwayTeam (away_pitcher sm) (away_pitcher_fatigue sm) True =
         half_inning_loop g HomeTeam AwayTeam (away_pitcher s)
           (0.05 * real_of_int (inning s - 1)) True (get_starting_lineup (home_team sm))
           tb outs_b bases_b"
proof -
  note fat = loop_head_fatigue [OF assms(1)]
  have init: "home_pitcher_fatigue (Engine_init home away hp ap pos) = 0
     \<and> away_pitcher_fatigue (Engine_init home away hp ap pos) = 0"
    by (simp add: Engine_init_def)
  from at_bat_step_frame [OF assms(3)]
  have step: "home_pitcher_fatigue t' = home_pitcher_fatigue t
     \<and> away_pitcher_fatigue t' = away_pitcher_fatigue t"
    by (simp add: same_frame_def)
  from play_inning_frame [OF assms(2)]
  have inn: "home_pitcher_fatigue s1 = home_pitcher_fatigue s
     \<and> away_pitcher_fatigue s1 = away_pitcher_fatigue s
     \<and> home_pitcher_fatigue (end_inning s1) = home_pitcher_fatigue s + 0.05
     \<and> away_pitcher_fatigue (end_inning s1) = away_pitcher_fatigue s + 0.05"
    by (simp add: same_frame_def end_inning_fields)
  from play_half_inning_frame [OF assms(6)]
  have mid: "away_pitcher sm = away_pitcher s"
    "away_pitcher_fatigue sm = 0.05 * real_of_int (inning s - 1)"
    by (simp_all add: same_frame_def fat)
  have hf: "home_pitcher_fatigue s = 0.05 * real_of_int (inning s - 1)"
    by (simp add: fat)
  from at_bat_step_resolver [OF assms(5)]
  have top: "\<exists>i b r p' t2.
           current_batter_index (away_team ta) = Some i
         \<and> getitem (get_starting_lineup (away_team s)) i = Inr b
         \<and> simulate_at_bat g (rng_pos ta) b (home_pitcher s) (defense (home_team ta))
             (0.05 * real_of_int (inning s - 1)) = Inr (r, p')
         \<and> apply_result (ta\<lparr>rng_pos := p'\<rparr>) False r outs_a bases_a =
             Inr (t2, outs_a', bases_a')
         \<and> ta' = set_batter_index t2 AwayTeam ((i + 1) mod 9)"
    unfolding hf by simp
  from at_bat_step_resolver [OF assms(8)]
  have bottom: "\<exists>i b r p' t2.
           current_batter_index (home_team tb) = Some i
         \<and> getitem (get_starting_lineup (home_team sm)) i = Inr b
         \<and> simulate_at_bat g (rng_pos tb) b (away_pitcher s) (defense (away_team tb))
             (0.05 * real_of_int (inning s - 1)) = Inr (r, p')
         \<and> apply_result (tb\<lparr>rng_pos := p'\<rparr>) True r outs_b bases_b =
             Inr (t2, outs_b', bases_b')
         \<and> tb' = set_batter_index t2 HomeTeam ((i + 1) mod 9)"
    unfolding mid by simp
  from half_inning_head_loop [OF assms(4)]
  have top_loop: "play_half_inning g s AwayTeam HomeTeam (home_pitcher s)
        (home_pitcher_fatigue s) False =
      half_inning_loop g AwayTeam HomeTeam (home_pitcher s)
        (0.05 * real_of_int (inning s - 1)) False (get_starting_lineup (away_team s))
        ta outs_a bases_a"
    by (simp add: hf)
  from half_inning_head_loop [OF assms(7)]
  have bottom_loop: "play_half_inning g sm HomeTeam AwayTeam (away_pitcher sm)
        (away_pitcher_fatigue sm) True =
      half_inning_loop g HomeTeam AwayTeam (away_pitcher s)
        (0.05 * real_of_int (inning s - 1)) True (get_starting_lineup (home_team sm))
        tb outs_b bases_b"
    by (simp add: mid)
  from init fat step inn play_inning_fatigue_passed [of g s] top top_loop bottom bottom_loop
  show ?thesis
    by (intro conjI) simp_all
qed

theorem fatigue_accumulates_per_inning_witness:
  "\<exists>s s1 ta b r p. loop_head all_outs example_game s \<and> inning s = 2
      \<and> home_pitcher_fatigue s = 0.05 \<and> away_pitcher_fatigue s = 0.05
      \<and> play_inning all_outs s = Some (Inr s1)
      \<and> home_pitcher_fatigue (end_inning s1) = 0.1
      \<and> away_pitcher_fatigue (end_inning s1) = 0.1
      \<and> half_inning_head all_outs s AwayTeam HomeTeam (home_pitcher s)
           (home_pitcher_fatigue s) False ta 0 [0, 0, 0]
      \<and> simulate_at_bat all_outs (rng_pos ta) b (home_pitcher s) (defense (home_team ta)) 0.05 =
           Inr (r, p)"
proof -
  from all_out_inning [OF all_outs_above ready_example_game]
  obtain s0 where s0: "play_inning all_outs example_game = Some (Inr s0)" "ready s0"
    by blast
  let ?s = "end_inning s0"
  have head: "loop_head all_outs example_game ?s"
    by (rule loop_head_next [OF loop_head_start _ _ s0(1)])
       (simp_all add: example_game_fields)
  have rs: "ready ?s"
    by (rule ready_end_inning [OF s0(2)])
  from all_out_inning [OF all_outs_above rs]
  obtain s1 where s1: "play_inning all_outs ?s = Some (Inr s1)"
    by blast
  from play_inning_frame [OF s0(1)] have fs: "inning ?s = 2"
    "home_pitcher ?s = Some example_pitcher" "away_pitcher ?s = Some example_pitcher"
    by (simp_all add: same_frame_def end_inning_fields example_game_fields)
  let ?t = "set_batter_index example_game AwayTeam 0"
  have "(0::nat) < length (get_starting_lineup two_pitcher_team)"
    by (simp add: get_starting_lineup_def two_pitcher_team_def example_team_def)
  from at_bat_step_out [where s = ?t and g = all_outs, OF indexed_state(1) this]
  have step: "at_bat_step all_outs AwayTeam HomeTeam (Some example_pitcher) 0 False
      (get_starting_lineup two_pitcher_team) ?t 0 [0, 0, 0] =
      Inr (set_batter_index (?t\<lparr>rng_pos := rng_pos ?t + 1\<rparr>) AwayTeam ((0 + 1) mod 9),
           0 + 1, [0, 0, 0])"
    by (simp add: all_outs_def)
  let ?ta = "half_inning_start ?s AwayTeam"
  have ha: "half_inning_head all_outs ?s AwayTeam HomeTeam (home_pitcher ?s)
      (home_pitcher_fatigue ?s) False ?ta 0 [0, 0, 0]"
    by (rule half_inning_head_start)
  from first_at_bat_out [OF all_outs_above rs, of AwayTeam HomeTeam example_pitcher
      "home_pitcher_fatigue ?s" False]
  obtain ta' where sa: "at_bat_step all_outs AwayTeam HomeTeam (home_pitcher ?s)
      (home_pitcher_fatigue ?s) False (get_starting_lineup (away_team ?s)) ?ta 0 [0, 0, 0] =
      Inr (ta', 1, [0, 0, 0])"
    by (auto simp: fs)
  from all_out_half_inning [OF all_outs_above rs, of False AwayTeam HomeTeam example_pitcher
      "home_pitcher_fatigue ?s"]
  obtain sm where mid: "play_half_inning all_outs ?s AwayTeam HomeTeam (home_pitcher ?s)
      (home_pitcher_fatigue ?s) False = Some (Inr sm)" and rm: "ready sm"
    by (auto simp: fs)
  from play_half_inning_frame [OF mid] have fm: "away_pitcher sm = Some example_pitcher"
    by (simp add: same_frame_def fs)
  let ?tb = "half_inning_start sm HomeTeam"
  have hb: "half_inning_head all_outs sm HomeTeam AwayTeam (away_pitcher sm)
      (away_pitcher_fatigue sm) True ?tb 0 [0, 0, 0]"
    by (rule half_inning_head_start)
  from first_at_bat_out [OF all_outs_above rm, of HomeTeam AwayTeam example_pitcher
      "away_pitcher_fatigue sm" True]
  obtain tb' where sb: "at_bat_step all_outs HomeTeam AwayTeam (away_pitcher sm)
      (away_pitcher_fatigue sm) True (get_starting_lineup (home_team sm)) ?tb 0 [0, 0, 0] =
      Inr (tb', 1, [0, 0, 0])"
    by (auto simp: fm)
  from fatigue_accumulates_per_inning
    [OF head [unfolded example_game_def] s1 step ha sa mid hb sb]
  show ?thesis
    using head s1 ha fs(1)
    by (intro exI [of _ ?s] exI [of _ s1] exI [of _ ?ta]) auto
qed

section \<open>Walk-off\<close>

text \<open>
  C6. In an inning from the ninth on: when the top half ends with the home team ahead,
  \<open>play_inning\<close> returns the state the top half left, without a bottom half; when it ends
  with the scores tied, the bottom half is played. In a bottom half, at a state where the
  home team is ahead the loop returns that state at once, whatever the outs: no further
  at-bat is resolved, no draw is made, no index moves. At a state with the scores tied
  and fewer than three outs it resolves the next at-bat.
\<close>

theorem home_team_never_bats_ahead:
  assumes "play_half_inning g sa AwayTeam HomeTeam (home_pitcher sa)
             (home_pitcher_fatigue sa) False = Some (Inr sa1)"
    and "9 \<le> inning sa1" and "away_score sa1 < home_score sa1"
    and "play_half_inning g sb AwayTeam HomeTeam (home_pitcher sb)
             (home_pitcher_fatigue sb) False = Some (Inr sb1)"
    and "9 \<le> inning sb1" and "away_score sb1 = home_score sb1"
    and "9 \<le> inning u" and "away_score u < home_score u"
    and "9 \<le> inning t" and "away_score t = home_score t" and "outs < 3"
  shows "play_inning g sa = Some (Inr sa1)
     \<and> play_inning g sb =
         play_half_inning g sb1 HomeTeam AwayTeam (away_pitcher sb1)
           (away_pitcher_fatigue sb1) True
     \<and> half_inning_loop g bt dt pit fat True lineup u outs' bases = Some (Inr u)
     \<and> half_inning_loop g bt dt pit fat True lineup t outs bases =
         (case at_bat_step g bt dt pit fat True lineup t outs bases of
            Inl e \<Rightarrow> Some (Inl e)
          | Inr (t', outs1, bases1) \<Rightarrow>
              half_inning_loop g bt dt pit fat True lineup t' outs1 bases1)"
proof -
  have "play_inning g sa = Some (Inr sa1)"
    using assms(1-3) by (simp add: play_inning_def)
  moreover have "play_inning g sb =
         play_half_inning g sb1 HomeTeam AwayTeam (away_pitcher sb1)
           (away_pitcher_fatigue sb1) True"
    using assms(4-6) by (simp add: play_inning_def)
  moreover have "half_inning_loop g bt dt pit fat True lineup u outs' bases = Some (Inr u)"
    by (rule half_inning_loop_walk_off [OF assms(7,8)])
  moreover have "half_inning_loop g bt dt pit fat True lineup t outs bases =
         (case at_bat_step g bt dt pit fat True lineup t outs bases of
            Inl e \<Rightarrow> Some (Inl e)
          | Inr (t', outs1, bases1) \<Rightarrow>
              half_inning_loop g bt dt pit fat True lineup t' outs1 bases1)"
    by (rule half_inning_loop_at_bat [OF assms(11)]) (simp add: assms(10))
  ultimately show ?thesis
    by blast
qed

lemma ninth_fields:
  "ready ninth_home_leads" "ready ninth_tied"
  "inning ninth_home_leads = 9" "inning ninth_tied = 9"
  "home_score ninth_home_leads = 1" "away_score ninth_home_leads = 0"
  "home_score ninth_tied = 0" "away_score ninth_tied = 0"
  "rng_pos ninth_home_leads = 0" "rng_pos ninth_tied = 0"
  "home_pitcher ninth_home_leads = Some example_pitcher"
  "home_pitcher ninth_tied = Some example_pitcher"
  using ready_example_game
  by (simp_all add: ninth_home_leads_def ninth_tied_def ready_def example_game_fields)

theorem home_team_never_bats_ahead_witness:
  "\<exists>s1. play_inning all_outs ninth_home_leads = Some (Inr s1) \<and> rng_pos s1 = 3
      \<and> half_inning_loop all_outs HomeTeam AwayTeam (Some example_pitcher) 0 True
           (get_starting_lineup example_team) ninth_home_leads 0 [0, 0, 0] =
         Some (Inr ninth_home_leads)"
proof -
  from all_out_half_inning [OF all_outs_above ninth_fields(1), of False AwayTeam HomeTeam
      example_pitcher "home_pitcher_fatigue ninth_home_leads"]
  obtain sa1 where a: "play_half_inning all_outs ninth_home_leads AwayTeam HomeTeam
        (home_pitcher ninth_home_leads) (home_pitcher_fatigue ninth_home_leads) False =
        Some (Inr sa1)"
    and a1: "home_score sa1 = 1" "away_score sa1 = 0" "rng_pos sa1 = 3"
    by (auto simp: ninth_fields)
  from all_out_half_inning [OF all_outs_above ninth_fields(2), of False AwayTeam HomeTeam
      example_pitcher "home_pitcher_fatigue ninth_tied"]
  obtain sb1 where b: "play_half_inning all_outs ninth_tied AwayTeam HomeTeam
        (home_pitcher ninth_tied) (home_pitcher_fatigue ninth_tied) False =
        Some (Inr sb1)"
    and b1: "home_score sb1 = 0" "away_score sb1 = 0"
    by (auto simp: ninth_fields)
  from play_half_inning_frame [OF a] play_half_inning_frame [OF b]
  have inn: "9 \<le> inning sa1" "9 \<le> inning sb1"
    by (simp_all add: same_frame_def ninth_fields)
  have lead: "away_score sa1 < home_score sa1" and tie: "away_score sb1 = home_score sb1"
    by (simp_all add: a1 b1)
  have u: "9 \<le> inning ninth_home_leads" "away_score ninth_home_leads < home_score ninth_home_leads"
    and t: "9 \<le> inning ninth_tied" "away_score ninth_tied = home_score ninth_tied"
    by (simp_all add: ninth_fields)
  have outs: "(0::int) < 3"
    by simp
  from home_team_never_bats_ahead
    [where bt = HomeTeam and dt = AwayTeam and pit = "Some example_pitcher" and fat = 0
       and lineup = "get_starting_lineup example_team" and outs' = 0 and bases = "[0, 0, 0]",
     OF a inn(1) lead b inn(2) tie u t outs]
  show ?thesis
    using a1(3) by blast
qed

section \<open>Half-inning driver: a lineup of fewer than nine\<close>

lemma early_inning_all_out:
  assumes g: "\<forall>n. 0.700 < g n" and early: "inning s < 9"
    and hp: "home_pitcher s = Some hp" and ap: "away_pitcher s = Some ap"
    and ia: "ia = (case current_batter_index (away_team s) of None \<Rightarrow> 0 | Some j \<Rightarrow> j)"
    and ib: "ib = (case current_batter_index (home_team s) of None \<Rightarrow> 0 | Some j \<Rightarrow> j)"
    and la: "ia + 2 < length (get_starting_lineup (away_team s))" "ia + 3 < 9"
    and lb: "ib + 2 < length (get_starting_lineup (home_team s))" "ib + 3 < 9"
  shows "\<exists>s'. play_inning g s = Some (Inr s') \<and> inning s' = inning s
      \<and> home_pitcher s' = Some hp \<and> away_pitcher s' = Some ap
      \<and> batters (away_team s') = batters (away_team s)
      \<and> batters (home_team s') = batters (home_team s)
      \<and> current_batter_index (away_team s') = Some (ia + 3)
      \<and> current_batter_index (home_team s') = Some (ib + 3)"
proof -
  let ?s1 = "set_batter_index (s\<lparr>rng_pos := rng_pos s + 3\<rparr>) AwayTeam ((ia + 3) mod 9)"
  let ?s2 = "set_batter_index (?s1\<lparr>rng_pos := rng_pos ?s1 + 3\<rparr>) HomeTeam ((ib + 3) mod 9)"
  have top: "play_half_inning g s AwayTeam HomeTeam (Some hp) (home_pitcher_fatigue s) False =
      Some (Inr ?s1)"
    using la by (intro play_half_inning_three_outs [OF g]) (simp_all add: ia)
  have bottom: "play_half_inning g ?s1 HomeTeam AwayTeam (Some ap) (away_pitcher_fatigue ?s1)
      True = Some (Inr ?s2)"
    using lb early by (intro play_half_inning_three_outs [OF g]) (simp_all add: ib)
  from top bottom early have "play_inning g s = Some (Inr ?s2)"
    by (simp add: play_inning_def hp ap)
  moreover from la lb have "(ia + 3) mod 9 = ia + 3" "(ib + 3) mod 9 = ib + 3"
    by simp_all
  ultimately show ?thesis
    by (intro exI [of _ ?s2]) (simp add: hp ap)
qed

lemma short_lineup_top_error:
  assumes g: "\<forall>n. 0.700 < g n"
    and i: "current_batter_index (away_team s) = Some 6"
    and len: "length (batters (away_team s)) = 8"
  shows "play_half_inning g s AwayTeam HomeTeam (Some hp) fat False = Some (Inl IndexError)"
proof -
  let ?L = "batters (away_team s)"
  let ?loop = "half_inning_loop g AwayTeam HomeTeam (Some hp) fat False ?L"
  let ?t1 = "set_batter_index (s\<lparr>rng_pos := rng_pos s + 1\<rparr>) AwayTeam 7"
  let ?t2 = "set_batter_index (s\<lparr>rng_pos := rng_pos s + 2\<rparr>) AwayTeam 8"
  from len have L: "get_starting_lineup (away_team s) = ?L"
    by (simp add: short_lineup)
  have i': "current_batter_index (deref s AwayTeam) = Some 6"
    using i by simp
  have "?loop s 0 [0, 0, 0] = ?loop ?t1 1 [0, 0, 0]"
    using out_step [where outs = 0 and ih = False, OF g i', of ?L] len by simp
  also have "\<dots> = ?loop ?t2 2 [0, 0, 0]"
    using out_step [where s = ?t1 and outs = 1 and ih = False and j = 7,
        OF g batted_state(1), of ?L] len
    by (simp add: batted_state)
  also have "\<dots> = Some (Inl IndexError)"
    using at_bat_step_index_error [where s = ?t2 and i = 8 and lineup = ?L,
        OF batted_state(1)] len
    by (simp add: half_inning_loop_at_bat)
  finally show ?thesis
    by (simp add: play_half_inning_def L i)
qed

lemma play_loop_error:
  assumes "(inning s \<le> 9 \<or> away_score s = home_score s) \<and> inning s \<le> 15"
    and "play_inning g s = Some (Inl e)"
  shows "play_loop g s = Some (Inl e)"
  by (subst play_loop_guard) (simp only: if_P [OF assms(1)] assms(2) option.case sum.case)

text \<open>
  C5. The index is advanced modulo 9, whatever the length of the lineup. With an away
  team of eight batters, a home team of nine, both pitchers present and a generator that
  makes every at-bat an out, the away index is 3 after the first inning and 6 after the
  second; in the top of the third the batters at 6 and 7 are out, the index becomes 8,
  and \<open>lineup[8]\<close> raises \<open>IndexError\<close>: the game does not return.
\<close>

theorem short_lineup_raises_index_error:
  assumes g: "\<forall>n. 0.700 < g n"
    and away: "length (batters away) = 8" "current_batter_index away = None"
    and home: "9 \<le> length (batters home)" "current_batter_index home = None"
  shows "play g (Engine_init home away (Some hp) (Some ap) pos) = Some (Inl IndexError)"
proof -
  let ?s0 = "Engine_init home away (Some hp) (Some ap) pos"
  have la: "get_starting_lineup away = batters away"
    and lb: "length (get_starting_lineup home) = 9"
    using away home by (simp_all add: short_lineup lineup_of_nine)
  have s0: "inning ?s0 = 1" "home_pitcher ?s0 = Some hp" "away_pitcher ?s0 = Some ap"
    "away_team ?s0 = away" "home_team ?s0 = home" "away_score ?s0 = home_score ?s0"
    by (simp_all add: Engine_init_def)
  have "\<exists>s'. play_inning g ?s0 = Some (Inr s') \<and> inning s' = inning ?s0
      \<and> home_pitcher s' = Some hp \<and> away_pitcher s' = Some ap
      \<and> batters (away_team s') = batters (away_team ?s0)
      \<and> batters (home_team s') = batters (home_team ?s0)
      \<and> current_batter_index (away_team s') = Some (0 + 3)
      \<and> current_batter_index (home_team s') = Some (0 + 3)"
    by (rule early_inning_all_out [OF g]) (simp_all add: s0 away home la lb)
  then obtain s1 where s1: "play_inning g ?s0 = Some (Inr s1)" "inning s1 = 1"
    "home_pitcher s1 = Some hp" "away_pitcher s1 = Some ap"
    "batters (away_team s1) = batters away" "batters (home_team s1) = batters home"
    "current_batter_index (away_team s1) = Some 3"
    "current_batter_index (home_team s1) = Some 3"
    unfolding s0 by auto
  let ?e1 = "end_inning s1"
  have l1: "get_starting_lineup (away_team ?e1) = batters away"
    "length (get_starting_lineup (home_team ?e1)) = 9"
    using away home s1 by (simp_all add: end_inning_fields short_lineup lineup_of_nine)
  have e1: "inning ?e1 = 2" "home_pitcher ?e1 = Some hp" "away_pitcher ?e1 = Some ap"
    "batters (away_team ?e1) = batters away"
    "current_batter_index (away_team ?e1) = Some 3"
    "current_batter_index (home_team ?e1) = Some 3"
    by (simp_all add: end_inning_fields s1)
  have "\<exists>s'. play_inning g ?e1 = Some (Inr s') \<and> inning s' = inning ?e1
      \<and> home_pitcher s' = Some hp \<and> away_pitcher s' = Some ap
      \<and> batters (away_team s') = batters (away_team ?e1)
      \<and> batters (home_team s') = batters (home_team ?e1)
      \<and> current_batter_index (away_team s') = Some (3 + 3)
      \<and> current_batter_index (home_team s') = Some (3 + 3)"
    by (rule early_inning_all_out [OF g]) (simp_all add: e1 l1 away)
  then obtain s2 where s2: "play_inning g ?e1 = Some (Inr s2)" "inning s2 = 2"
    "home_pitcher s2 = Some hp" "away_pitcher s2 = Some ap"
    "batters (away_team s2) = batters away"
    "current_batter_index (away_team s2) = Some 6"
    unfolding e1 by auto
  let ?e2 = "end_inning s2"
  have "play_half_inning g ?e2 AwayTeam HomeTeam (Some hp) (home_pitcher_fatigue ?e2) False =
      Some (Inl IndexError)"
    using away s2 by (intro short_lineup_top_error [OF g]) (simp_all add: end_inning_fields)
  then have third: "play_inning g ?e2 = Some (Inl IndexError)"
    by (simp add: play_inning_def end_inning_fields s2)
  have "play g ?s0 = play_loop g ?s0"
    by (simp add: play_def Engine_init_def)
  also have "\<dots> = play_loop g ?e1"
    by (rule play_loop_continue [OF _ s1(1)]) (simp add: s0)
  also have "\<dots> = play_loop g ?e2"
    by (rule play_loop_continue [OF _ s2(1)]) (simp add: e1)
  also have "\<dots> = Some (Inl IndexError)"
    by (rule play_loop_error [OF _ third]) (simp add: end_inning_fields s2)
  finally show ?thesis .
qed

theorem short_lineup_raises_index_error_witness:
  "play all_outs
     (Engine_init example_team eight_batter_team (Some example_pitcher) (Some example_pitcher) 0)
   = Some (Inl IndexError)"
  by (rule short_lineup_raises_index_error [OF all_outs_above])
     (simp_all add: eight_batter_team_def example_team_def)

end
